theory Spec2Isabelle
  imports Main "HOL-Library.Sublist"
begin

section \<open>Characters and strings\<close>

text \<open>
  The extractor of \<^verbatim>\<open>src/script.py\<close> works on Python \<^verbatim>\<open>str\<close> values. A character is
  modelled as a \<^typ>\<open>char\<close> read as the code point of the same number, so a text is a
  sequence of code points below 256 (Latin-1). That range holds every character the
  patterns of the program name (the accented vowels, the letter n with tilde, the
  degree sign and the ordinal indicator) and \<^const>\<open>length\<close> counts what Python's
  \<^verbatim>\<open>len\<close> counts. The character classes below are those of Python's \<^verbatim>\<open>re\<close> and
  \<^verbatim>\<open>str\<close> on that range.
\<close>

definition code :: "char \<Rightarrow> nat" where
  "code c = of_char c"

text \<open>\<^verbatim>\<open>\d\<close>: the decimal digits.\<close>

definition is_digit :: "char \<Rightarrow> bool" where
  "is_digit c = (48 \<le> code c \<and> code c \<le> 57)"

text \<open>\<^verbatim>\<open>\s\<close> and \<^verbatim>\<open>str.isspace\<close>: tab to carriage return, the four separators
  28 to 31, the space, NEL (133) and the no-break space (160).\<close>

definition is_space :: "char \<Rightarrow> bool" where
  "is_space c = ((9 \<le> code c \<and> code c \<le> 13) \<or> (28 \<le> code c \<and> code c \<le> 32) \<or>
     code c = 133 \<or> code c = 160)"

text \<open>\<^verbatim>\<open>\w\<close>: the alphanumeric characters and the underscore. Beyond ASCII these are
  the ordinal indicators (170, 186), the superscript digits (178, 179, 185), the micro
  sign (181), the fractions (188 to 190) and the letters from 192 on, without the
  multiplication (215) and division (247) signs.\<close>

definition is_word :: "char \<Rightarrow> bool" where
  "is_word c = ((48 \<le> code c \<and> code c \<le> 57) \<or> (65 \<le> code c \<and> code c \<le> 90) \<or> code c = 95 \<or>
     (97 \<le> code c \<and> code c \<le> 122) \<or> code c = 170 \<or> code c = 178 \<or> code c = 179 \<or>
     code c = 181 \<or> code c = 185 \<or> code c = 186 \<or> (188 \<le> code c \<and> code c \<le> 190) \<or>
     (192 \<le> code c \<and> code c \<noteq> 215 \<and> code c \<noteq> 247))"

text \<open>The characters \<^verbatim>\<open>str.lower\<close> changes: A to Z, and 192 to 222 without 215.\<close>

definition is_upper :: "char \<Rightarrow> bool" where
  "is_upper c = ((65 \<le> code c \<and> code c \<le> 90) \<or> (192 \<le> code c \<and> code c \<le> 222 \<and> code c \<noteq> 215))"

definition lower_chr :: "char \<Rightarrow> char" where
  "lower_chr c = (if is_upper c then char_of (code c + 32) else c)"

definition lower :: "string \<Rightarrow> string" where
  "lower s = map lower_chr s"

text \<open>\<^verbatim>\<open>str.strip()\<close>: leading and trailing white space removed.\<close>

definition strip :: "string \<Rightarrow> string" where
  "strip s = rev (dropWhile is_space (rev (dropWhile is_space s)))"

text \<open>\<^verbatim>\<open>str.zfill(width)\<close>: zeros on the left, after a sign if there is one.\<close>

definition zfill :: "nat \<Rightarrow> string \<Rightarrow> string" where
  "zfill w s =
     (if w \<le> length s then s
      else (case s of
              c # cs \<Rightarrow>
                if c = CHR ''+'' \<or> c = CHR ''-'' then c # replicate (w - length s) CHR ''0'' @ cs
                else replicate (w - length s) CHR ''0'' @ s
            | [] \<Rightarrow> replicate w CHR ''0''))"

text \<open>\<^verbatim>\<open>int(s)\<close> on a string of decimal digits, the only strings the program passes to
  it (tokens its patterns capture with \<^verbatim>\<open>\d\<close>).\<close>

definition py_int :: "string \<Rightarrow> nat" where
  "py_int s = foldl (\<lambda>a c. 10 * a + (code c - 48)) 0 s"

text \<open>\<^verbatim>\<open>t[a:b]\<close> for \<^verbatim>\<open>0 <= a\<close>: the slice stops at the end of the text.\<close>

definition substr :: "string \<Rightarrow> nat \<Rightarrow> nat \<Rightarrow> string" where
  "substr t a b = take (b - a) (drop a t)"

text \<open>\<^verbatim>\<open>sep.join(xs)\<close>.\<close>

fun join :: "string \<Rightarrow> string list \<Rightarrow> string" where
  "join sep [] = []"
| "join sep [x] = x"
| "join sep (x # y # ys) = x @ sep @ join sep (y # ys)"

section \<open>Regular expressions as Python's \<^verbatim>\<open>re\<close> matches them\<close>

text \<open>
  The patterns of the program are written below as terms of \<open>regex\<close>, each beside its
  source string. \<open>Sym p\<close> is one character of the class \<open>p\<close>, \<open>Bnd\<close> is \<^verbatim>\<open>\b\<close>,
  \<open>Star\<close> the greedy and \<open>Lazy\<close> the non-greedy star, \<open>Grp n\<close> the capturing group
  number \<open>n\<close>.
\<close>

datatype regex =
    Sym "char \<Rightarrow> bool"
  | Bnd
  | Eps
  | Seq regex regex
  | Alt regex regex
  | Star regex
  | Lazy regex
  | Grp nat regex

text \<open>A position of the matcher in the text: the number of characters before it, the
  character just before it, the characters from it on, and the text of each group
  closed so far.\<close>

record mstate =
  pos :: nat
  prev :: "char option"
  rest :: string
  caps :: "nat \<rightharpoonup> string"

fun shorter :: "'a list \<Rightarrow> 'a list \<Rightarrow> bool" where
  "shorter [] (y # ys) = True"
| "shorter xs [] = False"
| "shorter (x # xs) (y # ys) = shorter xs ys"

lemma shorter_iff: "shorter xs ys = (length xs < length ys)"
  by (induction xs ys rule: shorter.induct) auto

definition word_before :: "mstate \<Rightarrow> bool" where
  "word_before s = (case prev s of None \<Rightarrow> False | Some c \<Rightarrow> is_word c)"

definition word_after :: "mstate \<Rightarrow> bool" where
  "word_after s = (case rest s of [] \<Rightarrow> False | c # _ \<Rightarrow> is_word c)"

definition consume :: "mstate \<Rightarrow> char \<Rightarrow> string \<Rightarrow> mstate" where
  "consume s c cs = s\<lparr>pos := pos s + 1, prev := Some c, rest := cs\<rparr>"

text \<open>Leaving group \<open>n\<close>, entered at \<open>s\<close>, at \<open>m\<close>: its text is what lies between the
  two positions.\<close>

definition close_group :: "nat \<Rightarrow> mstate \<Rightarrow> mstate \<Rightarrow> mstate" where
  "close_group n s m = m\<lparr>caps := (caps m)(n \<mapsto> take (pos m - pos s) (rest s))\<rparr>"

text \<open>
  \<open>matches r s\<close> lists the positions at which a match of \<open>r\<close> begun at \<open>s\<close> can end, in
  the order in which Python's backtracking matcher tries them: the head of the list
  is the match \<^verbatim>\<open>re\<close> reports. A star repeats its body only after an iteration
  that consumed a character (the bodies of the stars in this program always do).
\<close>

function matches :: "regex \<Rightarrow> mstate \<Rightarrow> mstate list" where
  "matches (Sym p) s =
     (case rest s of [] \<Rightarrow> [] | c # cs \<Rightarrow> if p c then [consume s c cs] else [])"
| "matches Bnd s = (if word_before s \<noteq> word_after s then [s] else [])"
| "matches Eps s = [s]"
| "matches (Seq a b) s = concat (map (matches b) (matches a s))"
| "matches (Alt a b) s = matches a s @ matches b s"
| "matches (Star r) s =
     concat (map (\<lambda>m. if shorter (rest m) (rest s) then matches (Star r) m else [])
       (matches r s)) @ [s]"
| "matches (Lazy r) s =
     s # concat (map (\<lambda>m. if shorter (rest m) (rest s) then matches (Lazy r) m else [])
       (matches r s))"
| "matches (Grp n r) s = map (close_group n s) (matches r s)"
  by pat_completeness auto
termination
  by (relation "measures [\<lambda>(r, s). size r, \<lambda>(r, s). length (rest s)]")
     (auto simp: shorter_iff)

text \<open>A match object: \<^verbatim>\<open>m.start()\<close>, \<^verbatim>\<open>m.end()\<close> and the text of its groups.\<close>

record rmatch =
  m_start :: nat
  m_end :: nat
  m_groups :: "nat \<rightharpoonup> string"

definition to_match :: "nat \<Rightarrow> mstate \<Rightarrow> rmatch" where
  "to_match st m = \<lparr>m_start = st, m_end = pos m, m_groups = caps m\<rparr>"

text \<open>The match that begins at one position, if there is one: where it began and the
  position at which it ended.\<close>

definition match_at :: "regex \<Rightarrow> nat \<Rightarrow> char option \<Rightarrow> string \<Rightarrow> (nat \<times> mstate) option" where
  "match_at r p pv cs =
     (case matches r \<lparr>pos = p, prev = pv, rest = cs, caps = Map.empty\<rparr> of
        [] \<Rightarrow> None
      | m # _ \<Rightarrow> Some (p, m))"

text \<open>The leftmost match: every start position from the current one to the end of the
  text is tried in turn.\<close>

primrec search_from :: "regex \<Rightarrow> nat \<Rightarrow> char option \<Rightarrow> string \<Rightarrow> (nat \<times> mstate) option" where
  "search_from r p pv [] = match_at r p pv []"
| "search_from r p pv (c # cs) =
     (case match_at r p pv (c # cs) of
        Some m \<Rightarrow> Some m
      | None \<Rightarrow> search_from r (p + 1) (Some c) cs)"

text \<open>\<^verbatim>\<open>re.search(pattern, t)\<close>.\<close>

definition re_search :: "regex \<Rightarrow> string \<Rightarrow> rmatch option" where
  "re_search r t = map_option (\<lambda>(st, m). to_match st m) (search_from r 0 None t)"

text \<open>
  \<^verbatim>\<open>re.finditer(pattern, t)\<close>: the matches from left to right, each search starting
  where the match before it ended. After a match that consumed nothing the search moves
  one character on (no pattern of this program matches the empty string).
\<close>

function finditer_from :: "regex \<Rightarrow> nat \<Rightarrow> char option \<Rightarrow> string \<Rightarrow> rmatch list" where
  "finditer_from r p pv cs =
     (case search_from r p pv cs of
        None \<Rightarrow> []
      | Some (st, m) \<Rightarrow>
          to_match st m #
          (if shorter (rest m) cs then finditer_from r (pos m) (prev m) (rest m)
           else (case cs of
                   [] \<Rightarrow> []
                 | c # cs' \<Rightarrow> finditer_from r (p + 1) (Some c) cs')))"
  by pat_completeness auto
termination
  by (relation "measure (\<lambda>(r, p, pv, cs). length cs)") (auto simp: shorter_iff)

definition finditer :: "regex \<Rightarrow> string \<Rightarrow> rmatch list" where
  "finditer r t = finditer_from r 0 None t"

text \<open>\<^verbatim>\<open>m.group(k)\<close>. A group that took no part in the match has no text (Python's
  \<^verbatim>\<open>None\<close>); every group of this program's patterns lies outside any optional part,
  so a match always gives it one.\<close>

definition group :: "rmatch \<Rightarrow> nat \<Rightarrow> string" where
  "group m k = (case m_groups m k of None \<Rightarrow> [] | Some u \<Rightarrow> u)"

subsection \<open>Pattern notation\<close>

definition lit :: "char \<Rightarrow> regex" where
  "lit c = Sym (\<lambda>x. x = c)"

text \<open>A letter under \<^verbatim>\<open>re.IGNORECASE\<close>.\<close>

definition lit_i :: "char \<Rightarrow> regex" where
  "lit_i c = Sym (\<lambda>x. lower_chr x = lower_chr c)"

definition seqs :: "regex list \<Rightarrow> regex" where
  "seqs rs = foldr Seq rs Eps"

definition lits :: "string \<Rightarrow> regex" where
  "lits w = seqs (map lit w)"

definition lits_i :: "string \<Rightarrow> regex" where
  "lits_i w = seqs (map lit_i w)"

text \<open>A character set \<^verbatim>\<open>[...]\<close>, its negation \<^verbatim>\<open>[^...]\<close>, and a set under
  \<^verbatim>\<open>re.IGNORECASE\<close>.\<close>

definition one_of :: "string \<Rightarrow> regex" where
  "one_of cs = Sym (\<lambda>x. x \<in> set cs)"

definition none_of :: "string \<Rightarrow> regex" where
  "none_of cs = Sym (\<lambda>x. x \<notin> set cs)"

definition one_of_i :: "string \<Rightarrow> regex" where
  "one_of_i cs = Sym (\<lambda>x. lower_chr x \<in> set (map lower_chr cs))"

definition plus :: "regex \<Rightarrow> regex" where
  "plus r = Seq r (Star r)"

definition lazy_plus :: "regex \<Rightarrow> regex" where
  "lazy_plus r = Seq r (Lazy r)"

definition opt :: "regex \<Rightarrow> regex" where
  "opt r = Alt r Eps"

text \<open>\<^verbatim>\<open>r{lo,hi}\<close>: \<open>lo\<close> copies, then up to \<open>hi - lo\<close> more, as many as possible first.\<close>

primrec times :: "nat \<Rightarrow> regex \<Rightarrow> regex" where
  "times 0 r = Eps"
| "times (Suc n) r = Seq r (times n r)"

primrec at_most :: "nat \<Rightarrow> regex \<Rightarrow> regex" where
  "at_most 0 r = Eps"
| "at_most (Suc n) r = Alt (Seq r (at_most n r)) Eps"

definition rep :: "regex \<Rightarrow> nat \<Rightarrow> nat \<Rightarrow> regex" where
  "rep r lo hi = Seq (times lo r) (at_most (hi - lo) r)"

definition D :: regex where "D = Sym is_digit"
definition S :: regex where "S = Sym is_space"
definition W :: regex where "W = Sym is_word"

definition NL :: char where "NL = CHR 0x0A"

text \<open>The dot without and with \<^verbatim>\<open>re.DOTALL\<close>.\<close>

definition dot :: regex where "dot = Sym (\<lambda>x. x \<noteq> NL)"
definition dot_all :: regex where "dot_all = Sym (\<lambda>x. True)"

text \<open>\<^verbatim>\<open>[A-Z]\<close> under \<^verbatim>\<open>re.IGNORECASE\<close>: an ASCII letter of either case.\<close>

definition is_ascii_letter :: "char \<Rightarrow> bool" where
  "is_ascii_letter c = ((65 \<le> code c \<and> code c \<le> 90) \<or> (97 \<le> code c \<and> code c \<le> 122))"

text \<open>The accented characters the patterns name.\<close>

definition a_acute :: char where "a_acute = CHR 0xE1"
definition e_acute :: char where "e_acute = CHR 0xE9"
definition i_acute :: char where "i_acute = CHR 0xED"
definition o_acute :: char where "o_acute = CHR 0xF3"
definition u_acute :: char where "u_acute = CHR 0xFA"
definition n_tilde :: char where "n_tilde = CHR 0xF1"
definition A_acute :: char where "A_acute = CHR 0xC1"
definition E_acute :: char where "E_acute = CHR 0xC9"
definition I_acute :: char where "I_acute = CHR 0xCD"
definition O_acute :: char where "O_acute = CHR 0xD3"
definition U_acute :: char where "U_acute = CHR 0xDA"
definition degree_sign :: char where "degree_sign = CHR 0xB0"
definition ordinal_sign :: char where "ordinal_sign = CHR 0xBA"

section \<open>The taxonomy tables\<close>

text \<open>
  The four dictionaries of \<^verbatim>\<open>ConvenioExtractor.__init__\<close>, as lists of pairs in the
  order of declaration: a Python dictionary is iterated in insertion order, and every
  loop over them stops at the first hit.
\<close>

definition tipos_convenio :: "(string \<times> string) list" where
  "tipos_convenio =
    [(''acta acuerdo'', ''Acta Acuerdo''),
     (''acta complemento'', ''Acta Complemento''),
     (''acta compromiso'', ''Acta Compromiso''),
     (''acta especifica'', ''Acta Especifica''),
     (''acuerdo'', ''Acuerdo''),
     (''acuerdo complementario'', ''Acuerdo Complementario''),
     (''acuerdo cooperacion'', ''Acuerdo Cooperacion''),
     (''acuerdo especifico'', ''Acuerdo Especifico''),
     (''acuerdo investigacion'', ''Acuerdo Investigacion''),
     (''adenda'', ''Adenda''),
     (''adhesion'', ''Adhesion''),
     (''anexo'', ''Anexo''),
     (''comision de estudio'', ''Comision de Estudio''),
     (''carta intencion'', ''Carta Intencion''),
     (''especifico'', ''Especifico''),
     (''general'', ''General''),
     (''marco'', ''Marco''),
     (''marco de colaboracion'', ''Marco de Colaboracion''),
     (''marco de cooperacion'', ''Marco de Cooperacion''),
     (''marco de investigacion'', ''Marco de Investigacion''),
     (''marco de intercambio'', ''Marco de Intercambio''),
     (''marco de intercambio de alumnos'', ''Marco de Intercambio de Alumnos''),
     (''marco de pasantias'', ''Marco de Pasantias''),
     (''memorandum'', ''Memorandum''),
     (''memorandum de entendimiento'', ''Memorandum de Entendimiento''),
     (''pps'', ''PPS''),
     (''protocolo'', ''Protocolo''),
     (''protocolo adicional'', ''Protocolo Adicional''),
     (''protocolo de colaboracion'', ''Protocolo de Colaboracion''),
     (''protocolo especifico'', ''Protocolo Especifico''),
     (''protocolo de investigacion'', ''Protocolo de Investigacion''),
     (''proyecto'', ''Proyecto''),
     (''subvencion'', ''Subvencion''),
     (''transferencia tecnologica'', ''Transferencia Tecnologica'')]"

definition tipos_institucion :: "(string \<times> string) list" where
  "tipos_institucion =
    [(''agencia'', ''Agencia''),
     (''agremiacion'', ''Agremiacion''),
     (''asociacion'', ''Asociacion''),
     (''club'', ''Club''),
     (''educativa'', ''Educativa''),
     (''empresa'', ''Empresa''),
     (''ente'', ''Ente''),
     (''fundacion'', ''Fundacion''),
     (''gobierno'', ''Gobierno''),
     (''gubernamental'', ''Gubernamental''),
     (''investigadora'', ''Investigadora''),
     (''instituto'', ''Instituto''),
     (''nacional'', ''Nacional''),
     (''municipal'', ''Municipal''),
     (''salud'', ''Salud''),
     (''sindical'', ''Sindical''),
     (''social'', ''Social''),
     (''ong'', ''ONG''),
     (''universitaria'', ''Universitaria''),
     (''universidad'', ''Universitaria''),
     (''provincia'', ''Gubernamental''),
     (''ministerio'', ''Gubernamental''),
     (''direccion'', ''Gubernamental'')]"

definition tipos_renovacion :: "(string \<times> string) list" where
  "tipos_renovacion =
    [(''partes iguales'', ''Partes Iguales''),
     (''escalera'', ''Escalera''),
     (''unica'', ''Unica''),
     (''sin renovacion'', ''Sin Renovacion''),
     (''renovable'', ''Renovable de Comun Acuerdo''),
     (''renovable de comun acuerdo'', ''Renovable de Comun Acuerdo'')]"

definition cargos :: "(string \<times> string) list" where
  "cargos =
    [(''rector'', ''Rector/a''),
     (''rectora'', ''Rector/a''),
     (''vicerrector'', ''Vicerrector/a''),
     (''vicerrectora'', ''Vicerrector/a''),
     (''secretario'', ''Secretario/a''),
     (''secretaria'', ''Secretario/a''),
     (''coordinador'', ''Coordinador/a''),
     (''coordinadora'', ''Coordinador/a''),
     (''decano'', ''Decano/a''),
     (''decana'', ''Decano/a''),
     (''vicedecano'', ''Vicedecano/a''),
     (''vicedecana'', ''Vicedecano/a''),
     (''director'', ''Director/a''),
     (''directora'', ''Director/a''),
     (''investigador'', ''Investigador/a''),
     (''investigadora'', ''Investigador/a''),
     (''ministro'', ''Director/a''),
     (''ministra'', ''Director/a''),
     (''interventor'', ''Director/a''),
     (''interventora'', ''Director/a'')]"

text \<open>
  The pattern \<^verbatim>\<open>r'\b' + re.escape(key) + r'\b'\<close> searched with
  \<^verbatim>\<open>re.IGNORECASE\<close>; the keys hold lower-case letters and spaces only.
\<close>

definition word_pat :: "string \<Rightarrow> regex" where
  "word_pat k = Seq Bnd (Seq (lits_i k) Bnd)"

text \<open>
  The loop of lines 317 to 320 and 370 to 373: the value of the first key, in table
  order, that occurs in the text as a whole word; the default when none does.
\<close>

fun lookup_word :: "(string \<times> string) list \<Rightarrow> string \<Rightarrow> string \<Rightarrow> string" where
  "lookup_word [] t dflt = dflt"
| "lookup_word ((k, v) # kvs) t dflt =
     (if re_search (word_pat k) t \<noteq> None then v else lookup_word kvs t dflt)"

text \<open>
  The loop of lines 418 to 421 and 461 to 464: the value of the first key, in table
  order, that is a substring of \<open>s\<close> (Python's \<^verbatim>\<open>key in s\<close>).
\<close>

fun lookup_substr :: "(string \<times> string) list \<Rightarrow> string \<Rightarrow> string \<Rightarrow> string" where
  "lookup_substr [] s dflt = dflt"
| "lookup_substr ((k, v) # kvs) s dflt =
     (if sublist k s then v else lookup_substr kvs s dflt)"

section \<open>Dates\<close>

definition month_map :: "(string \<times> string) list" where
  "month_map =
    [(''enero'', ''01''), (''febrero'', ''02''), (''marzo'', ''03''), (''abril'', ''04''),
     (''mayo'', ''05''), (''junio'', ''06''), (''julio'', ''07''), (''agosto'', ''08''),
     (''septiembre'', ''09''), (''octubre'', ''10''), (''noviembre'', ''11''),
     (''diciembre'', ''12'')]"

text \<open>\<^verbatim>\<open>month_map.get(month_name.lower(), '01')\<close>.\<close>

definition month_of :: "string \<Rightarrow> string" where
  "month_of month_name =
     (case map_of month_map (lower month_name) of Some mm \<Rightarrow> mm | None \<Rightarrow> ''01'')"

text \<open>
  The expression of lines 297 to 298 and 360 to 361:
  \<^verbatim>\<open>"19" + year if int(year) > 50 else "20" + year\<close>, applied when the token has
  two characters.
\<close>

definition expand_year :: "string \<Rightarrow> string" where
  "expand_year year =
     (if length year = 2 then (if 50 < py_int year then ''19'' @ year else ''20'' @ year)
      else year)"

text \<open>
  The first pattern of a list that matches, with its tag: the loops
  \<^verbatim>\<open>for pattern in ...: match = re.search(...); if match: ...; break\<close>. The tag of a
  date pattern is the value of \<^verbatim>\<open>'de' in pattern\<close>.
\<close>

fun first_match :: "('a \<times> regex) list \<Rightarrow> string \<Rightarrow> ('a \<times> rmatch) option" where
  "first_match [] t = None"
| "first_match ((tag, r) # ps) t =
     (case re_search r t of Some m \<Rightarrow> Some (tag, m) | None \<Rightarrow> first_match ps t)"

section \<open>\<^verbatim>\<open>extract_resolution_data\<close>\<close>

record resolution_data =
  numero :: string
  fecha :: string
  tipo :: string
  expediente_numero :: string
  expediente_anio :: string
  dependencia_id :: string
  link :: string

text \<open>\<^verbatim>\<open>R-DR-(\d{4})-(\d{3,4})\.pdf\<close>\<close>

definition url_pat :: regex where
  "url_pat = seqs [lits ''R-DR-'', Grp 1 (rep D 4 4), lit CHR ''-'', Grp 2 (rep D 3 4),
     lit CHR ''.'', lits ''pdf'']"

text \<open>\<^verbatim>\<open>(\d{1,2})\s+de\s+(\w+)\s+de\s+(\d{4})\<close>\<close>

definition date_spelled :: regex where
  "date_spelled = seqs [Grp 1 (rep D 1 2), plus S, lits_i ''de'', plus S, Grp 2 (plus W),
     plus S, lits_i ''de'', plus S, Grp 3 (rep D 4 4)]"

text \<open>\<^verbatim>\<open>(\d{1,2})/(\d{1,2})/(\d{4})\<close>\<close>

definition date_slash :: regex where
  "date_slash = seqs [Grp 1 (rep D 1 2), lit CHR ''/'', Grp 2 (rep D 1 2), lit CHR ''/'',
     Grp 3 (rep D 4 4)]"

text \<open>\<^verbatim>\<open>(\d{4})-(\d{1,2})-(\d{1,2})\<close>\<close>

definition date_iso :: regex where
  "date_iso = seqs [Grp 1 (rep D 4 4), lit CHR ''-'', Grp 2 (rep D 1 2), lit CHR ''-'',
     Grp 3 (rep D 1 2)]"

definition date_patterns :: "(bool \<times> regex) list" where
  "date_patterns = [(True, date_spelled), (False, date_slash), (False, date_iso)]"

text \<open>\<^verbatim>\<open>expediente\s*n[<degree><ordinal>]?\s*(\d+)[/\-](\d{2,4})\<close>, the set holding the
  degree sign and the masculine ordinal indicator.\<close>

definition exp_pat :: regex where
  "exp_pat = seqs [lits_i ''expediente'', Star S, lit_i CHR ''n'',
     opt (one_of_i [degree_sign, ordinal_sign]), Star S, Grp 1 (plus D), one_of ''/-'',
     Grp 2 (rep D 2 4)]"

text \<open>Lines 275 to 289: the date string of a match of a date pattern.\<close>

definition resolution_fecha :: "bool \<times> rmatch \<Rightarrow> string" where
  "resolution_fecha tm =
     (case tm of (spelled, m) \<Rightarrow>
        if spelled then
          group m 3 @ ''-'' @ zfill 2 (month_of (group m 2)) @ ''-'' @ zfill 2 (group m 1)
        else if length (group m 1) = 4 then
          group m 1 @ ''-'' @ zfill 2 (group m 2) @ ''-'' @ zfill 2 (group m 3)
        else
          group m 3 @ ''-'' @ zfill 2 (group m 2) @ ''-'' @ zfill 2 (group m 1))"

definition extract_resolution_data :: "string \<Rightarrow> string \<Rightarrow> resolution_data" where
  "extract_resolution_data t url =
     (let url_match = re_search url_pat url;
          exp_match = re_search exp_pat t
      in \<lparr>numero = (case url_match of Some m \<Rightarrow> group m 2 | None \<Rightarrow> ''''),
          fecha = (case first_match date_patterns t of
                     Some tm \<Rightarrow> resolution_fecha tm
                   | None \<Rightarrow> ''''),
          tipo = ''DR'',
          expediente_numero = (case exp_match of Some m \<Rightarrow> group m 1 | None \<Rightarrow> ''''),
          expediente_anio =
            (case exp_match of
               Some m \<Rightarrow> expand_year (group m 2)
             | None \<Rightarrow> (case url_match of Some m \<Rightarrow> group m 1 | None \<Rightarrow> '''')),
          dependencia_id = '''',
          link = url\<rparr>)"

section \<open>\<^verbatim>\<open>extract_convenio_data\<close>\<close>

record convenio_data =
  tipo_convenio :: string
  titulo :: string
  duracion :: string
  fecha_firma :: string
  tipo_renovacion :: string
  internacional :: string
  objeto :: string
  observaciones :: string

text \<open>\<^verbatim>\<open>convenio\s+(.+?)(?:\n|\.)\<close>, searched with \<^verbatim>\<open>re.IGNORECASE\<close>.\<close>

definition title_pat :: regex where
  "title_pat = seqs [lits_i ''convenio'', plus S, Grp 1 (lazy_plus dot),
     Alt (lit NL) (lit CHR ''.'')]"

text \<open>\<^verbatim>\<open>duraci[o<o acute>]n\s*:?\s*(\d+)\s*a[<n tilde>n]os?\<close> and the same after
  \<^verbatim>\<open>vigencia\<close> and \<^verbatim>\<open>plazo\<close>, searched with \<^verbatim>\<open>re.IGNORECASE\<close>.\<close>

definition anios_tail :: "regex list" where
  "anios_tail = [Star S, opt (lit CHR '':''), Star S, Grp 1 (plus D), Star S,
     lit_i CHR ''a'', one_of_i [n_tilde, CHR ''n''], lit_i CHR ''o'', opt (lit_i CHR ''s'')]"

definition duracion_patterns :: "(unit \<times> regex) list" where
  "duracion_patterns =
    [((), seqs ([lits_i ''duraci'', one_of_i [CHR ''o'', o_acute], lit_i CHR ''n''] @ anios_tail)),
     ((), seqs (lits_i ''vigencia'' # anios_tail)),
     ((), seqs (lits_i ''plazo'' # anios_tail))]"

text \<open>\<^verbatim>\<open>firmado\s+el\s+(\d{1,2})[/\-](\d{1,2})[/\-](\d{2,4})\<close>\<close>

definition firma_numeric :: regex where
  "firma_numeric = seqs [lits_i ''firmado'', plus S, lits_i ''el'', plus S, Grp 1 (rep D 1 2),
     one_of ''/-'', Grp 2 (rep D 1 2), one_of ''/-'', Grp 3 (rep D 2 4)]"

text \<open>\<^verbatim>\<open>suscr[i|<i acute>]pto?\s+el\s+(\d{1,2})\s+de\s+(\w+)\s+de\s+(\d{4})\<close>: the set
  holds the letter i, the vertical bar and the accented i.\<close>

definition firma_spelled :: regex where
  "firma_spelled = seqs [lits_i ''suscr'', one_of_i [CHR ''i'', CHR ''|'', i_acute],
     lits_i ''pt'', opt (lit_i CHR ''o''), plus S, lits_i ''el'', plus S, Grp 1 (rep D 1 2),
     plus S, lits_i ''de'', plus S, Grp 2 (plus W), plus S, lits_i ''de'', plus S,
     Grp 3 (rep D 4 4)]"

definition firma_patterns :: "(bool \<times> regex) list" where
  "firma_patterns = [(False, firma_numeric), (True, firma_spelled)]"

text \<open>Lines 349 to 362: the date string of a match of a signing-date pattern.\<close>

definition firma_fecha :: "bool \<times> rmatch \<Rightarrow> string" where
  "firma_fecha tm =
     (case tm of (spelled, m) \<Rightarrow>
        if spelled then
          group m 3 @ ''-'' @ zfill 2 (month_of (group m 2)) @ ''-'' @ zfill 2 (group m 1)
        else
          expand_year (group m 3) @ ''-'' @ zfill 2 (group m 2) @ ''-'' @
            zfill 2 (group m 1))"

text \<open>\<^verbatim>\<open>\b(internacional|extranjero|exterior)\b\<close>\<close>

definition internacional_pat :: regex where
  "internacional_pat = seqs [Bnd,
     Grp 1 (Alt (lits_i ''internacional'') (Alt (lits_i ''extranjero'') (lits_i ''exterior''))),
     Bnd]"

text \<open>\<^verbatim>\<open>objeto\s*:?\s*(.+?)(?:\n\n|\.\s*[A-Z])\<close> and the same after
  \<^verbatim>\<open>prop[o<o acute>]sito\<close> and \<^verbatim>\<open>finalidad\<close>, searched with
  \<^verbatim>\<open>re.IGNORECASE | re.DOTALL\<close>.\<close>

definition objeto_tail :: "regex list" where
  "objeto_tail = [Star S, opt (lit CHR '':''), Star S, Grp 1 (lazy_plus dot_all),
     Alt (Seq (lit NL) (lit NL)) (seqs [lit CHR ''.'', Star S, Sym is_ascii_letter])]"

definition objeto_patterns :: "(unit \<times> regex) list" where
  "objeto_patterns =
    [((), seqs (lits_i ''objeto'' # objeto_tail)),
     ((), seqs ([lits_i ''prop'', one_of_i [CHR ''o'', o_acute], lits_i ''sito''] @ objeto_tail)),
     ((), seqs (lits_i ''finalidad'' # objeto_tail))]"

definition extract_convenio_data :: "string \<Rightarrow> convenio_data" where
  "extract_convenio_data t =
     \<lparr>tipo_convenio = lookup_word tipos_convenio t ''Marco'',
      titulo = (case re_search title_pat t of
                  Some m \<Rightarrow> take 255 (strip (group m 1))
                | None \<Rightarrow> ''''),
      duracion = (case first_match duracion_patterns t of
                    Some (u, m) \<Rightarrow> group m 1
                  | None \<Rightarrow> ''''),
      fecha_firma = (case first_match firma_patterns t of
                       Some tm \<Rightarrow> firma_fecha tm
                     | None \<Rightarrow> ''''),
      tipo_renovacion = lookup_word tipos_renovacion t '''',
      internacional = (if re_search internacional_pat t \<noteq> None then ''true'' else ''false''),
      objeto = (case first_match objeto_patterns t of
                  Some (u, m) \<Rightarrow> take 500 (strip (group m 1))
                | None \<Rightarrow> ''''),
      observaciones = ''''\<rparr>"

section \<open>\<^verbatim>\<open>extract_institutions\<close>\<close>

record institution =
  inst_nombre :: string
  inst_tipo :: string
  pais :: string
  provincia :: string
  localidad :: string

text \<open>The nine patterns of lines 395 to 405, searched with \<^verbatim>\<open>re.IGNORECASE\<close>:
  \<^verbatim>\<open>(Universidad\s+[^,\n]+)\<close> and its like, and \<^verbatim>\<open>(Provincia\s+de\s+\w+)\<close>.\<close>

definition to_line_end :: "regex \<Rightarrow> regex" where
  "to_line_end hd_re = Grp 1 (seqs [hd_re, plus S, plus (none_of [CHR '','', NL])])"

definition institution_patterns :: "regex list" where
  "institution_patterns =
    [to_line_end (lits_i ''Universidad''),
     to_line_end (lits_i ''Instituto''),
     to_line_end (lits_i ''Ministerio''),
     to_line_end (lits_i ''Gobierno''),
     Grp 1 (seqs [lits_i ''Provincia'', plus S, lits_i ''de'', plus S, plus W]),
     to_line_end (lits_i ''Municipalidad''),
     to_line_end (seqs [lits_i ''Fundaci'', one_of_i [CHR ''o'', o_acute], lit_i CHR ''n'']),
     to_line_end (lits_i ''Empresa''),
     to_line_end (seqs [lits_i ''Asociaci'', one_of_i [CHR ''o'', o_acute], lit_i CHR ''n''])]"

text \<open>The matches in the order in which the two nested loops visit them: pattern by
  pattern, and from left to right within a pattern.\<close>

definition all_matches :: "regex list \<Rightarrow> string \<Rightarrow> rmatch list" where
  "all_matches ps t = concat (map (\<lambda>p. finditer p t) ps)"

text \<open>The body of the inner loop (lines 412 to 429) on the set of names found and the
  list built so far.\<close>

definition institution_step :: "string set \<times> institution list \<Rightarrow> rmatch
    \<Rightarrow> string set \<times> institution list" where
  "institution_step acc m =
     (case acc of (found_institutions, institutions) \<Rightarrow>
        let inst_name = strip (group m 1) in
        if 5 < length inst_name \<and> lower inst_name \<notin> found_institutions then
          (insert (lower inst_name) found_institutions,
           institutions @
             [\<lparr>inst_nombre = inst_name,
               inst_tipo = lookup_substr tipos_institucion (lower inst_name) ''Universitaria'',
               pais = ''Argentina'',
               provincia = ''Salta'',
               localidad = ''Salta''\<rparr>])
        else acc)"

definition extract_institutions :: "string \<Rightarrow> institution list" where
  "extract_institutions t =
     take 5 (snd (foldl institution_step ({}, []) (all_matches institution_patterns t)))"

section \<open>\<^verbatim>\<open>extract_signers\<close>\<close>

record signer =
  dni :: string
  nombre :: string
  apellido :: string
  cargo :: string

text \<open>\<^verbatim>\<open>[A-Z<A E I O U acute>]\<close> and \<^verbatim>\<open>[a-z<a e i o u acute>]\<close>; these patterns are
  searched without flags.\<close>

definition is_capital :: "char \<Rightarrow> bool" where
  "is_capital c = ((65 \<le> code c \<and> code c \<le> 90) \<or>
     c \<in> set [A_acute, E_acute, I_acute, O_acute, U_acute])"

definition is_small :: "char \<Rightarrow> bool" where
  "is_small c = ((97 \<le> code c \<and> code c \<le> 122) \<or>
     c \<in> set [a_acute, e_acute, i_acute, o_acute, u_acute])"

definition capital :: regex where
  "capital = Sym is_capital"

definition small :: regex where
  "small = Sym is_small"

text \<open>A capitalised word: \<^verbatim>\<open>[A-Z...][a-z...]+\<close>.\<close>

definition cap_word :: regex where
  "cap_word = Seq capital (plus small)"

text \<open>The four patterns of lines 438 to 443: two or more capitalised words, the second
  group taking every further one, and two capitalised words after \<^verbatim>\<open>Dr.\<close>,
  \<^verbatim>\<open>Ing.\<close> or \<^verbatim>\<open>Lic.\<close>.\<close>

definition titled :: "string \<Rightarrow> regex" where
  "titled abbr = seqs [lits abbr, lit CHR ''.'', plus S, Grp 1 cap_word, plus S, Grp 2 cap_word]"

definition name_patterns :: "regex list" where
  "name_patterns =
    [seqs [Grp 1 cap_word, plus S, Grp 2 (Seq cap_word (Star (Seq (plus S) cap_word)))],
     titled ''Dr'',
     titled ''Ing'',
     titled ''Lic'']"

text \<open>\<^verbatim>\<open>text[max(0, match.start()-100):match.end()+100]\<close>\<close>

definition context_of :: "string \<Rightarrow> rmatch \<Rightarrow> string" where
  "context_of t m = substr t (m_start m - 100) (m_end m + 100)"

text \<open>Lines 458 to 464: the title found near the name.\<close>

definition cargo_of :: "string \<Rightarrow> string" where
  "cargo_of ctx = lookup_substr cargos (lower ctx) ''Rector/a''"

definition signer_step :: "string \<Rightarrow> string set \<times> signer list \<Rightarrow> rmatch
    \<Rightarrow> string set \<times> signer list" where
  "signer_step t acc m =
     (case acc of (found_names, signers) \<Rightarrow>
        let nombre' = group m 1;
            apellido' = group m 2;
            full_name = lower (nombre' @ '' '' @ apellido')
        in
        if full_name \<notin> found_names \<and> 2 < length nombre' \<and> 2 < length apellido' then
          (insert full_name found_names,
           signers @
             [\<lparr>dni = '''',
               nombre = nombre',
               apellido = apellido',
               cargo = cargo_of (context_of t m)\<rparr>])
        else acc)"

definition extract_signers :: "string \<Rightarrow> signer list" where
  "extract_signers t =
     take 5 (snd (foldl (signer_step t) ({}, []) (all_matches name_patterns t)))"

section \<open>\<^verbatim>\<open>process_single_pdf\<close>\<close>

record csv_row =
  csv_resolucion :: string
  csv_tipo_convenio :: string
  csv_titulo :: string
  csv_duracion :: string
  csv_fecha_firma :: string
  csv_tipo_renovacion :: string
  csv_internacional :: string
  csv_objeto :: string
  csv_observaciones :: string
  csv_instituciones :: string
  csv_dependencias :: string
  csv_firmantes :: string

text \<open>What the function logs before it returns \<^verbatim>\<open>None\<close>.\<close>

datatype log_event = Texto_insuficiente string

text \<open>\<^verbatim>\<open>url.split('/')[-1]\<close>\<close>

definition filename_of :: "string \<Rightarrow> string" where
  "filename_of url = rev (takeWhile (\<lambda>c. c \<noteq> CHR ''/'') (rev url))"

definition institution_cell :: "institution \<Rightarrow> string" where
  "institution_cell inst = join ''|'' [inst_nombre inst, inst_tipo inst, '''', '''', pais inst,
     provincia inst, localidad inst]"

definition signer_cell :: "signer \<Rightarrow> string" where
  "signer_cell sg = join ''|'' [dni sg, nombre sg, apellido sg, '''', ''Argentina'', ''Salta'',
     ''Salta'', '''', '''', cargo sg, ''true'']"

text \<open>
  The names an instance of \<^verbatim>\<open>ConvenioExtractor\<close> has: the attributes that
  \<^verbatim>\<open>__init__\<close> sets (lines 41 to 117) and the methods of the class (lines 40 to
  537). The class has no base class and no \<^verbatim>\<open>__getattr__\<close>, and none of the names
  that every Python object has is among those looked up below, so the lookup of any other
  name raises \<^verbatim>\<open>AttributeError\<close>.
\<close>

datatype error = AttributeError string

definition attributes :: "string list" where
  "attributes = [''output_dir'', ''tipos_convenio'', ''tipos_institucion'',
     ''tipos_renovacion'', ''cargos'', ''__init__'', ''download_file'',
     ''extract_text_from_file'', ''extract_text_from_html'', ''extract_text_from_pdf'',
     ''ocr_pdf'', ''extract_resolution_data'', ''extract_convenio_data'',
     ''extract_institutions'', ''extract_signers'', ''process_single_pdf'',
     ''process_urls_file'']"

definition getattr :: "string \<Rightarrow> error + string" where
  "getattr name = (if name \<in> set attributes then Inr name else Inl (AttributeError name))"

text \<open>
  Lines 484 to 535, the \<^verbatim>\<open>try\<close> block of \<^verbatim>\<open>process_single_pdf\<close>, from the text
  \<open>t\<close> that \<^verbatim>\<open>extract_text_from_pdf\<close> has read from the file. The result is the
  row, or \<^verbatim>\<open>None\<close>, with what was logged.
\<close>

definition try_block :: "string \<Rightarrow> string \<Rightarrow> log_event list \<times> csv_row option" where
  "try_block t url =
     (if length (strip t) < 50 then ([Texto_insuficiente (filename_of url)], None)
      else
        let resolution = extract_resolution_data t url;
            convenio = extract_convenio_data t;
            institutions = extract_institutions t;
            signers = extract_signers t
        in ([], Some
          \<lparr>csv_resolucion = join ''|'' [numero resolution, fecha resolution, tipo resolution,
             expediente_numero resolution, expediente_anio resolution,
             dependencia_id resolution, link resolution],
           csv_tipo_convenio = tipo_convenio convenio,
           csv_titulo = titulo convenio,
           csv_duracion = duracion convenio,
           csv_fecha_firma = fecha_firma convenio,
           csv_tipo_renovacion = tipo_renovacion convenio,
           csv_internacional = internacional convenio,
           csv_objeto = objeto convenio,
           csv_observaciones = observaciones convenio,
           csv_instituciones = join '';'' (map institution_cell institutions),
           csv_dependencias = ''Rectorado|UNSa|rectorado|Argentina|Salta|Salta|true'',
           csv_firmantes = join '';'' (map signer_cell signers)\<rparr>))"

text \<open>
  Lines 475 to 535. Line 481 calls \<^verbatim>\<open>self.download_pdf\<close>, before the
  \<^verbatim>\<open>try\<close> block: the name is looked up on the instance first, and a failed lookup
  is the error the method raises. \<open>downloaded\<close> is what the call answers when the name is
  found, and \<open>t\<close> the text read from the file.
\<close>

definition process_single_pdf ::
  "bool \<Rightarrow> string \<Rightarrow> string \<Rightarrow> error + (log_event list \<times> csv_row option)" where
  "process_single_pdf downloaded t url =
     (case getattr ''download_pdf'' of
        Inl e \<Rightarrow> Inl e
      | Inr download_pdf \<Rightarrow>
          if \<not> downloaded then Inr ([], None) else Inr (try_block t url))"

section \<open>Notions the claims are stated with\<close>

text \<open>
  Deduplication as the specification words it: of the entries that share a key only
  the first is kept, and the entries kept stay in the order in which they were found.
\<close>

fun first_occurrences :: "('a \<Rightarrow> 'k) \<Rightarrow> 'a list \<Rightarrow> 'a list" where
  "first_occurrences key [] = []"
| "first_occurrences key (x # xs) =
     x # first_occurrences key (filter (\<lambda>y. key y \<noteq> key x) xs)"

text \<open>The names the institution loop considers, in the order of the scan: the stripped
  first group of every match, when it has more than five characters.\<close>

definition institution_candidates :: "rmatch list \<Rightarrow> string list" where
  "institution_candidates mts =
     filter (\<lambda>n. 5 < length n) (map (\<lambda>m. strip (group m 1)) mts)"

text \<open>The record the loop appends for a name it accepts.\<close>

definition new_institution :: "string \<Rightarrow> institution" where
  "new_institution n = \<lparr>inst_nombre = n,
     inst_tipo = lookup_substr tipos_institucion (lower n) ''Universitaria'',
     pais = ''Argentina'', provincia = ''Salta'', localidad = ''Salta''\<rparr>"

text \<open>The pairs of first name and surname the signer loop considers, in the order of
  the scan: both with more than two characters. Their key is the lower-cased full name.\<close>

definition signer_candidates :: "rmatch list \<Rightarrow> (string \<times> string) list" where
  "signer_candidates mts =
     filter (\<lambda>(n, a). 2 < length n \<and> 2 < length a)
       (map (\<lambda>m. (group m 1, group m 2)) mts)"

definition full_name_key :: "string \<times> string \<Rightarrow> string" where
  "full_name_key na = (case na of (n, a) \<Rightarrow> lower (n @ '' '' @ a))"

text \<open>The record the loop appends for a match it accepts.\<close>

definition new_signer :: "string \<Rightarrow> rmatch \<Rightarrow> signer" where
  "new_signer t m = \<lparr>dni = '''', nombre = group m 1, apellido = group m 2,
     cargo = cargo_of (context_of t m)\<rparr>"

text \<open>The end-to-end scenario of the specification: its sentence and its locator.\<close>

definition scenario_text :: string where
  "scenario_text = ''Acuerdo de Cooperacion firmado el 15 de marzo de 2020 entre la '' @
     ''Universidad Nacional de Salta y el Ministerio de Educacion''"

definition scenario_url :: string where
  "scenario_url = ''.../R-DR-2020-0123.pdf''"

text \<open>What an entry of the institution list shows of itself: its name and its type.\<close>

definition name_and_type :: "institution \<Rightarrow> string \<times> string" where
  "name_and_type inst = (inst_nombre inst, inst_tipo inst)"

text \<open>
  A well-formed ISO calendar date, as the specification understands it: four digits,
  a hyphen, two digits, a hyphen, two digits, the month between 1 and 12 and the day
  between 1 and the number of days of that month in that year.
\<close>

definition is_leap :: "nat \<Rightarrow> bool" where
  "is_leap y = (if y mod 100 = 0 then y mod 400 = 0 else y mod 4 = 0)"

definition days_in_month :: "nat \<Rightarrow> nat \<Rightarrow> nat" where
  "days_in_month y m =
     (if m \<in> set [1, 3, 5, 7, 8, 10, 12] then 31
      else if m \<in> set [4, 6, 9, 11] then 30
      else if m = 2 then (if is_leap y then 29 else 28)
      else 0)"

definition valid_iso_date :: "string \<Rightarrow> bool" where
  "valid_iso_date d =
     (length d = 10 \<and> list_all is_digit (take 4 d) \<and> take 1 (drop 4 d) = ''-'' \<and>
      list_all is_digit (take 2 (drop 5 d)) \<and> take 1 (drop 7 d) = ''-'' \<and>
      list_all is_digit (drop 8 d) \<and>
      1 \<le> py_int (take 2 (drop 5 d)) \<and> py_int (take 2 (drop 5 d)) \<le> 12 \<and>
      1 \<le> py_int (drop 8 d) \<and>
      py_int (drop 8 d) \<le> days_in_month (py_int (take 4 d)) (py_int (take 2 (drop 5 d))))"

text \<open>
  The shape the code gives a date: a year of \<open>n\<close> digits, a hyphen, two digits, a
  hyphen, two digits.
\<close>

definition date_shaped :: "nat \<Rightarrow> string \<Rightarrow> bool" where
  "date_shaped n d =
     (length d = n + 6 \<and> list_all is_digit (take n d) \<and> take 1 (drop n d) = ''-'' \<and>
      list_all is_digit (take 2 (drop (n + 1) d)) \<and> take 1 (drop (n + 3) d) = ''-'' \<and>
      list_all is_digit (drop (n + 4) d))"

text \<open>
  The hypothesis of the claim about titles at the end of the text: wherever the word
  convenio stands (in any case), what follows it up to the end of the text holds
  neither a line break nor a period.
\<close>

definition has_terminator :: "string \<Rightarrow> bool" where
  "has_terminator u = (NL \<in> set u \<or> CHR ''.'' \<in> set u)"

fun convenio_runs_to_end :: "string \<Rightarrow> bool" where
  "convenio_runs_to_end [] = True"
| "convenio_runs_to_end (c # cs) =
     ((lower (take 8 (c # cs)) = ''convenio'' \<longrightarrow> \<not> has_terminator (drop 8 (c # cs))) \<and>
      convenio_runs_to_end cs)"

text \<open>
  The state of the matcher when a search tries position \<open>i\<close> of the text \<open>t\<close>, and
  whether a match of the pattern begins at that position.
\<close>

definition state_at :: "string \<Rightarrow> nat \<Rightarrow> mstate" where
  "state_at t i = \<lparr>pos = i, prev = (if i = 0 then None else Some (t ! (i - 1))),
     rest = drop i t, caps = Map.empty\<rparr>"

definition begins_at :: "regex \<Rightarrow> string \<Rightarrow> nat \<Rightarrow> bool" where
  "begins_at r t i = (matches r (state_at t i) \<noteq> [])"

section \<open>Notions the proofs use\<close>

text \<open>How a match moves through the text: from \<open>s\<close> it reaches \<open>s'\<close> by consuming
  \<open>u\<close>.\<close>

definition after :: "mstate \<Rightarrow> string \<Rightarrow> mstate \<Rightarrow> bool" where
  "after s u s' = (rest s = u @ rest s' \<and> pos s' = pos s + length u \<and>
     prev s' = (if u = [] then prev s else Some (last u)))"

text \<open>
  What the groups of a pattern can hold. \<open>consumed_by r P\<close>: every text a match of
  \<open>r\<close> consumes satisfies \<open>P\<close>. \<open>groups_ok Q r\<close>: the body of every group \<open>n\<close> of
  \<open>r\<close> consumes only texts that satisfy \<open>Q n\<close>. \<open>sets_group n r\<close>: every match of
  \<open>r\<close> passes through group \<open>n\<close>. \<open>caps_ok Q s\<close>: the groups closed so far satisfy
  \<open>Q\<close>. \<open>digits lo hi u\<close>: \<open>u\<close> is made of decimal digits, between \<open>lo\<close> and \<open>hi\<close> of
  them.
\<close>

definition consumed_by :: "regex \<Rightarrow> (string \<Rightarrow> bool) \<Rightarrow> bool" where
  "consumed_by r P = (\<forall>s s' u. s' \<in> set (matches r s) \<longrightarrow> after s u s' \<longrightarrow> P u)"

primrec groups_ok :: "(nat \<Rightarrow> string \<Rightarrow> bool) \<Rightarrow> regex \<Rightarrow> bool" where
  "groups_ok Q (Sym p) = True"
| "groups_ok Q Bnd = True"
| "groups_ok Q Eps = True"
| "groups_ok Q (Seq a b) = (groups_ok Q a \<and> groups_ok Q b)"
| "groups_ok Q (Alt a b) = (groups_ok Q a \<and> groups_ok Q b)"
| "groups_ok Q (Star r) = groups_ok Q r"
| "groups_ok Q (Lazy r) = groups_ok Q r"
| "groups_ok Q (Grp n r) = (consumed_by r (Q n) \<and> groups_ok Q r)"

primrec sets_group :: "nat \<Rightarrow> regex \<Rightarrow> bool" where
  "sets_group n (Sym p) = False"
| "sets_group n Bnd = False"
| "sets_group n Eps = False"
| "sets_group n (Seq a b) = (sets_group n a \<or> sets_group n b)"
| "sets_group n (Alt a b) = (sets_group n a \<and> sets_group n b)"
| "sets_group n (Star r) = False"
| "sets_group n (Lazy r) = False"
| "sets_group n (Grp k r) = (k = n \<or> sets_group n r)"

definition caps_ok :: "(nat \<Rightarrow> string \<Rightarrow> bool) \<Rightarrow> mstate \<Rightarrow> bool" where
  "caps_ok Q s = (\<forall>n u. caps s n = Some u \<longrightarrow> Q n u)"

definition digits :: "nat \<Rightarrow> nat \<Rightarrow> string \<Rightarrow> bool" where
  "digits lo hi u = (list_all is_digit u \<and> lo \<le> length u \<and> length u \<le> hi)"

text \<open>
  The walk through a pattern: \<open>leads r s m\<close> says that \<open>m\<close> is the first outcome of the
  part \<open>r\<close> from the state \<open>s\<close>, \<open>takes r s u m\<close> that this outcome takes \<open>u\<close> off the
  text and leaves the groups alone, and \<open>stops p r\<close> that a run of the class \<open>p\<close> cannot
  go on into \<open>r\<close>.
\<close>

definition leads :: "regex \<Rightarrow> mstate \<Rightarrow> mstate \<Rightarrow> bool" where
  "leads r s m = (\<exists>tl. matches r s = m # tl)"

definition stops :: "(char \<Rightarrow> bool) \<Rightarrow> string \<Rightarrow> bool" where
  "stops p r = (case r of [] \<Rightarrow> True | c # cs \<Rightarrow> \<not> p c)"

definition takes :: "regex \<Rightarrow> mstate \<Rightarrow> string \<Rightarrow> mstate \<Rightarrow> bool" where
  "takes r s u m = (leads r s m \<and> rest s = u @ rest m \<and> caps m = caps s)"

section \<open>Evaluation rules\<close>

text \<open>
  The character classes decided on the eight bits of a character, so that the
  functions above can be evaluated on a concrete text without arithmetic.
\<close>

lemma is_digit_Char [code]:
  "is_digit (Char b0 b1 b2 b3 b4 b5 b6 b7) =
     (\<not> b7 \<and> (\<not> b6 \<and> (b5 \<and> (b4 \<and> (\<not> b3 \<or> (\<not>
     b2 \<and> \<not> b1))))))"
  by (cases b0; cases b1; cases b2; cases b3; cases b4; cases b5; cases b6; cases b7;
      simp add: is_digit_def code_def)

lemma is_space_Char [code]:
  "is_space (Char b0 b1 b2 b3 b4 b5 b6 b7) =
     (if b7 then (\<not> b6 \<and> (if b5 then (\<not> b4 \<and> (\<not> b3 \<and>
     (\<not> b2 \<and> (\<not> b1 \<and> \<not> b0)))) else (\<not> b4 \<and> (\<not> b3
     \<and> (b2 \<and> (\<not> b1 \<and> b0)))))) else (\<not> b6 \<and> (if b5 then
     (\<not> b4 \<and> (\<not> b3 \<and> (\<not> b2 \<and> (\<not> b1 \<and> \<not>
     b0)))) else (if b4 then (b3 \<and> b2) else (b3 \<and> (if b2 then \<not> b1 else
     (b1 \<or> b0)))))))"
  by (cases b0; cases b1; cases b2; cases b3; cases b4; cases b5; cases b6; cases b7;
      simp add: is_space_def code_def)

lemma is_word_Char [code]:
  "is_word (Char b0 b1 b2 b3 b4 b5 b6 b7) =
     (if b7 then (if b6 then (if b5 then (\<not> b4 \<or> (b3 \<or> (\<not> b2 \<or>
     (\<not> b1 \<or> \<not> b0)))) else (\<not> b4 \<or> (b3 \<or> (\<not> b2 \<or>
     (\<not> b1 \<or> \<not> b0))))) else (b5 \<and> (if b4 then (if b3 then (if b2 then
     (\<not> b1 \<or> \<not> b0) else (if b1 then \<not> b0 else b0)) else (if b2 then
     (\<not> b1 \<and> b0) else b1)) else (b3 \<and> (\<not> b2 \<and> (b1 \<and> \<not>
     b0)))))) else (if b6 then (if b5 then (if b4 then (\<not> b3 \<or> (\<not> b2
     \<and> (\<not> b1 \<or> \<not> b0))) else (b3 \<or> (b2 \<or> (b1 \<or> b0)))) else
     (if b4 then (\<not> b3 \<or> (if b2 then (b1 \<and> b0) else (\<not> b1 \<or>
     \<not> b0))) else (b3 \<or> (b2 \<or> (b1 \<or> b0))))) else (b5 \<and> (b4 \<and>
     (\<not> b3 \<or> (\<not> b2 \<and> \<not> b1))))))"
  by (cases b0; cases b1; cases b2; cases b3; cases b4; cases b5; cases b6; cases b7;
      simp add: is_word_def code_def)

lemma is_upper_Char [code]:
  "is_upper (Char b0 b1 b2 b3 b4 b5 b6 b7) =
     (if b7 then (b6 \<and> (\<not> b5 \<and> (\<not> b4 \<or> (if b3 then (\<not> b2
     \<or> (\<not> b1 \<or> \<not> b0)) else (\<not> b2 \<or> (\<not> b1 \<or> \<not>
     b0)))))) else (b6 \<and> (\<not> b5 \<and> (if b4 then (\<not> b3 \<or> (\<not> b2
     \<and> (\<not> b1 \<or> \<not> b0))) else (b3 \<or> (b2 \<or> (b1 \<or> b0)))))))"
  by (cases b0; cases b1; cases b2; cases b3; cases b4; cases b5; cases b6; cases b7;
      simp add: is_upper_def code_def)

lemma is_ascii_letter_Char [code]:
  "is_ascii_letter (Char b0 b1 b2 b3 b4 b5 b6 b7) =
     (\<not> b7 \<and> (b6 \<and> (if b5 then (if b4 then (\<not> b3 \<or> (\<not> b2
     \<and> (\<not> b1 \<or> \<not> b0))) else (b3 \<or> (b2 \<or> (b1 \<or> b0)))) else
     (if b4 then (\<not> b3 \<or> (\<not> b2 \<and> (\<not> b1 \<or> \<not> b0))) else
     (b3 \<or> (b2 \<or> (b1 \<or> b0)))))))"
  by (cases b0; cases b1; cases b2; cases b3; cases b4; cases b5; cases b6; cases b7;
      simp add: is_ascii_letter_def code_def)

lemma is_capital_Char [code]:
  "is_capital (Char b0 b1 b2 b3 b4 b5 b6 b7) =
     (if b7 then (b6 \<and> (\<not> b5 \<and> (if b4 then (if b3 then (\<not> b2 \<and>
     (b1 \<and> \<not> b0)) else (\<not> b2 \<and> (b1 \<and> b0))) else (if b3 then (if
     b2 then (\<not> b1 \<and> b0) else (\<not> b1 \<and> b0)) else (\<not> b2 \<and>
     (\<not> b1 \<and> b0)))))) else (b6 \<and> (\<not> b5 \<and> (if b4 then (\<not> b3
     \<or> (\<not> b2 \<and> (\<not> b1 \<or> \<not> b0))) else (b3 \<or> (b2 \<or> (b1
     \<or> b0)))))))"
  by (cases b0; cases b1; cases b2; cases b3; cases b4; cases b5; cases b6; cases b7;
      simp add: is_capital_def code_def A_acute_def E_acute_def I_acute_def O_acute_def U_acute_def)

lemma is_small_Char [code]:
  "is_small (Char b0 b1 b2 b3 b4 b5 b6 b7) =
     (if b7 then (b6 \<and> (b5 \<and> (if b4 then (if b3 then (\<not> b2 \<and> (b1
     \<and> \<not> b0)) else (\<not> b2 \<and> (b1 \<and> b0))) else (if b3 then (if b2
     then (\<not> b1 \<and> b0) else (\<not> b1 \<and> b0)) else (\<not> b2 \<and>
     (\<not> b1 \<and> b0)))))) else (b6 \<and> (b5 \<and> (if b4 then (\<not> b3 \<or>
     (\<not> b2 \<and> (\<not> b1 \<or> \<not> b0))) else (b3 \<or> (b2 \<or> (b1 \<or>
     b0)))))))"
  by (cases b0; cases b1; cases b2; cases b3; cases b4; cases b5; cases b6; cases b7;
      simp add: is_small_def code_def a_acute_def e_acute_def i_acute_def o_acute_def u_acute_def)

lemma lower_chr_Char [code]:
  "lower_chr (Char b0 b1 b2 b3 b4 b5 b6 b7) =
     (if is_upper (Char b0 b1 b2 b3 b4 b5 b6 b7) then Char b0 b1 b2 b3 b4 True b6 b7
      else Char b0 b1 b2 b3 b4 b5 b6 b7)"
  unfolding is_upper_Char
  by (cases b0; cases b1; cases b2; cases b3; cases b4; cases b5; cases b6; cases b7;
      simp add: lower_chr_def is_upper_def code_def char_of_def bit_Suc_0_iff)

section \<open>Facts about the matcher\<close>

text \<open>The equations of the two stars rewrite their own right-hand sides; they are
  applied by hand.\<close>

declare matches.simps(6) [simp del]
declare matches.simps(7) [simp del]

lemma in_matches_Star:
  "s' \<in> set (matches (Star r) s) \<longleftrightarrow>
     s' = s \<or> (\<exists>m \<in> set (matches r s). shorter (rest m) (rest s) \<and> s' \<in> set (matches (Star r) m))"
  by (subst matches.simps) auto

lemma in_matches_Lazy:
  "s' \<in> set (matches (Lazy r) s) \<longleftrightarrow>
     s' = s \<or> (\<exists>m \<in> set (matches r s). shorter (rest m) (rest s) \<and> s' \<in> set (matches (Lazy r) m))"
  by (subst matches.simps) auto

lemma in_matches_Sym:
  "s' \<in> set (matches (Sym p) s) \<longleftrightarrow> (\<exists>c cs. rest s = c # cs \<and> p c \<and> s' = consume s c cs)"
  by (cases "rest s") auto

lemma after_refl: "after s [] s"
  by (simp add: after_def)

lemma after_trans: "after s u m \<Longrightarrow> after m v s' \<Longrightarrow> after s (u @ v) s'"
  by (auto simp add: after_def)

lemma after_close_group: "after s u m \<Longrightarrow> after s u (close_group n s' m)"
  by (simp add: after_def close_group_def)

lemma after_consume: "rest s = c # cs \<Longrightarrow> after s [c] (consume s c cs)"
  by (simp add: after_def consume_def)

lemma matches_after: "s' \<in> set (matches r s) \<Longrightarrow> \<exists>u. after s u s'"
proof (induction r s arbitrary: s' rule: matches.induct)
  case (1 p s)
  from "1.prems" obtain c cs where "rest s = c # cs" "s' = consume s c cs"
    unfolding in_matches_Sym by blast
  then have "after s [c] s'" by (simp add: after_consume)
  then show ?case by blast
next
  case (2 s)
  from "2.prems" have "s' = s" by (simp split: if_splits)
  then show ?case using after_refl by blast
next
  case (3 s)
  from "3.prems" have "s' = s" by simp
  then show ?case using after_refl by blast
next
  case (4 a b s)
  from "4.prems" obtain m where m: "m \<in> set (matches a s)" "s' \<in> set (matches b m)"
    by auto
  from "4.IH"(1) [OF m(1)] obtain u where "after s u m" by blast
  moreover from "4.IH"(2) [OF m(1) m(2)] obtain v where "after m v s'" by blast
  ultimately have "after s (u @ v) s'" by (rule after_trans)
  then show ?case by blast
next
  case (5 a b s)
  from "5.prems" have "s' \<in> set (matches a s) \<or> s' \<in> set (matches b s)"
    by simp
  with "5.IH" show ?case by blast
next
  case (6 r s)
  from "6.prems" consider "s' = s"
    | m where "m \<in> set (matches r s)" "shorter (rest m) (rest s)" "s' \<in> set (matches (Star r) m)"
    unfolding in_matches_Star [of s' r s] by blast
  then show ?case
  proof cases
    case 1
    then show ?thesis using after_refl by blast
  next
    case 2
    from "6.IH"(1) [OF 2(1)] obtain u where "after s u m" by blast
    moreover from "6.IH"(2) [OF 2(1) 2(2) 2(3)] obtain v where "after m v s'" by blast
    ultimately have "after s (u @ v) s'" by (rule after_trans)
    then show ?thesis by blast
  qed
next
  case (7 r s)
  from "7.prems" consider "s' = s"
    | m where "m \<in> set (matches r s)" "shorter (rest m) (rest s)" "s' \<in> set (matches (Lazy r) m)"
    unfolding in_matches_Lazy [of s' r s] by blast
  then show ?case
  proof cases
    case 1
    then show ?thesis using after_refl by blast
  next
    case 2
    from "7.IH"(1) [OF 2(1)] obtain u where "after s u m" by blast
    moreover from "7.IH"(2) [OF 2(1) 2(2) 2(3)] obtain v where "after m v s'" by blast
    ultimately have "after s (u @ v) s'" by (rule after_trans)
    then show ?thesis by blast
  qed
next
  case (8 n r s)
  from "8.prems" obtain m where m: "m \<in> set (matches r s)" "s' = close_group n s m"
    by auto
  from "8.IH" [OF m(1)] obtain u where "after s u m" by blast
  then have "after s u s'" unfolding m(2) by (rule after_close_group)
  then show ?case by blast
qed

lemma in_matches_Seq:
  "s' \<in> set (matches (Seq a b) s) \<longleftrightarrow> (\<exists>m \<in> set (matches a s). s' \<in> set (matches b m))"
  by auto

lemma in_matches_Eps: "s' \<in> set (matches Eps s) \<longleftrightarrow> s' = s"
  by simp

lemma in_matches_lit:
  "s' \<in> set (matches (lit c) s) \<longleftrightarrow> (\<exists>cs. rest s = c # cs \<and> s' = consume s c cs)"
  unfolding lit_def in_matches_Sym by blast

lemma in_matches_seqs_Cons:
  "s' \<in> set (matches (seqs (r # rs)) s) \<longleftrightarrow>
     (\<exists>m \<in> set (matches r s). s' \<in> set (matches (seqs rs) m))"
  unfolding seqs_def by (simp del: matches.simps add: in_matches_Seq)

lemma in_matches_seqs_Nil: "s' \<in> set (matches (seqs []) s) \<longleftrightarrow> s' = s"
  unfolding seqs_def by simp

text \<open>A literal word, without regard to case, consumes a text equal to it up to case.\<close>

lemma matches_lits_i:
  "s' \<in> set (matches (lits_i w) s) \<Longrightarrow> \<exists>u. after s u s' \<and> lower u = lower w"
proof (induction w arbitrary: s)
  case Nil
  then have "s' = s" by (simp add: lits_i_def in_matches_seqs_Nil)
  then show ?case using after_refl by (auto simp add: lower_def)
next
  case (Cons c w)
  from Cons.prems obtain m where m: "m \<in> set (matches (lit_i c) s)"
      "s' \<in> set (matches (lits_i w) m)"
    unfolding lits_i_def list.map in_matches_seqs_Cons by blast
  from m(1) obtain x cs where x: "rest s = x # cs" "lower_chr x = lower_chr c" "m = consume s x cs"
    unfolding lit_i_def in_matches_Sym by blast
  from Cons.IH [OF m(2)] obtain u where u: "after m u s'" "lower u = lower w"
    by blast
  from x(1) x(3) have "after s [x] m" by (simp add: after_consume)
  from after_trans [OF this u(1)] have "after s (x # u) s'" by simp
  moreover have "lower (x # u) = lower (c # w)"
    using x(2) u(2) by (simp add: lower_def)
  ultimately show ?case by blast
qed

text \<open>Where a search finds a match: at the start of some suffix of the text.\<close>

lemma match_at_Some:
  "match_at r p pv cs = Some (st, m) \<Longrightarrow>
     st = p \<and> m \<in> set (matches r \<lparr>pos = p, prev = pv, rest = cs, caps = Map.empty\<rparr>)"
  by (auto simp add: match_at_def split: list.splits)

lemma search_from_Some:
  "search_from r p pv cs = Some (st, m) \<Longrightarrow>
     \<exists>pre cs' pv'. cs = pre @ cs' \<and>
       m \<in> set (matches r \<lparr>pos = st, prev = pv', rest = cs', caps = Map.empty\<rparr>)"
proof (induction cs arbitrary: p pv)
  case Nil
  then have "m \<in> set (matches r \<lparr>pos = st, prev = pv, rest = [], caps = Map.empty\<rparr>)"
    using match_at_Some [of r p pv "[]" st m] by simp
  then show ?case by blast
next
  case (Cons c cs)
  show ?case
  proof (cases "match_at r p pv (c # cs)")
    case None
    with Cons.prems have "search_from r (p + 1) (Some c) cs = Some (st, m)"
      by simp
    from Cons.IH [OF this] obtain pre cs' pv' where
      "cs = pre @ cs'" "m \<in> set (matches r \<lparr>pos = st, prev = pv', rest = cs', caps = Map.empty\<rparr>)"
      by blast
    then have "c # cs = (c # pre) @ cs'" by simp
    with \<open>m \<in> _\<close> show ?thesis by blast
  next
    case (Some a)
    with Cons.prems have "match_at r p pv (c # cs) = Some (st, m)" by simp
    from match_at_Some [OF this]
    have "m \<in> set (matches r \<lparr>pos = st, prev = pv, rest = c # cs, caps = Map.empty\<rparr>)"
      by simp
    moreover have "c # cs = [] @ (c # cs)" by simp
    ultimately show ?thesis by blast
  qed
qed

lemma re_search_Some:
  assumes "re_search r t = Some mt"
  shows "\<exists>pre cs pv st m. t = pre @ cs \<and> mt = to_match st m \<and>
     m \<in> set (matches r \<lparr>pos = st, prev = pv, rest = cs, caps = Map.empty\<rparr>)"
proof -
  from assms obtain st m where sm: "search_from r 0 None t = Some (st, m)" "mt = to_match st m"
    by (auto simp add: re_search_def)
  from search_from_Some [OF sm(1)] sm(2) show ?thesis by blast
qed

subsection \<open>The text of the groups\<close>

lemma after_same: "after s u s' \<Longrightarrow> after s v s' \<Longrightarrow> u = v"
  by (simp add: after_def)

lemma in_matches_Grp:
  "s' \<in> set (matches (Grp n r) s) \<longleftrightarrow> (\<exists>m \<in> set (matches r s). s' = close_group n s m)"
  by auto

lemma caps_close_group:
  assumes "after s u m"
  shows "caps (close_group n s m) = (caps m)(n \<mapsto> u)"
proof -
  from assms have "take (pos m - pos s) (rest s) = u"
    by (simp add: after_def)
  then show ?thesis by (simp add: close_group_def)
qed

text \<open>The text of every group satisfies what its body guarantees.\<close>

lemma caps_inv:
  "groups_ok Q r \<Longrightarrow> caps_ok Q s \<Longrightarrow> s' \<in> set (matches r s) \<Longrightarrow> caps_ok Q s'"
proof (induction r s arbitrary: s' rule: matches.induct)
  case (1 p s)
  from "1.prems"(3) obtain c cs where "s' = consume s c cs"
    unfolding in_matches_Sym by blast
  with "1.prems"(2) show ?case by (simp add: caps_ok_def consume_def)
next
  case (2 s)
  from "2.prems"(3) have "s' = s" by (simp split: if_splits)
  with "2.prems"(2) show ?case by simp
next
  case (3 s)
  from "3.prems"(3) have "s' = s" by simp
  with "3.prems"(2) show ?case by simp
next
  case (4 a b s)
  from "4.prems"(3) obtain m where m: "m \<in> set (matches a s)" "s' \<in> set (matches b m)"
    unfolding in_matches_Seq by blast
  from "4.prems"(1) have ok: "groups_ok Q a" "groups_ok Q b" by simp_all
  from "4.IH"(1) [OF ok(1) "4.prems"(2) m(1)] have "caps_ok Q m" .
  from "4.IH"(2) [OF m(1) ok(2) this m(2)] show ?case .
next
  case (5 a b s)
  from "5.prems"(3) have "s' \<in> set (matches a s) \<or> s' \<in> set (matches b s)" by simp
  moreover from "5.prems"(1) have "groups_ok Q a" "groups_ok Q b" by simp_all
  ultimately show ?case using "5.IH" "5.prems"(2) by blast
next
  case (6 r s)
  from "6.prems"(3) consider "s' = s"
    | m where "m \<in> set (matches r s)" "shorter (rest m) (rest s)" "s' \<in> set (matches (Star r) m)"
    unfolding in_matches_Star [of s' r s] by blast
  then show ?case
  proof cases
    case 1
    with "6.prems"(2) show ?thesis by simp
  next
    case 2
    from "6.prems"(1) have ok: "groups_ok Q r" by simp
    from "6.IH"(1) [OF ok "6.prems"(2) 2(1)] have "caps_ok Q m" .
    from "6.IH"(2) [OF 2(1) 2(2) "6.prems"(1) this 2(3)] show ?thesis .
  qed
next
  case (7 r s)
  from "7.prems"(3) consider "s' = s"
    | m where "m \<in> set (matches r s)" "shorter (rest m) (rest s)" "s' \<in> set (matches (Lazy r) m)"
    unfolding in_matches_Lazy [of s' r s] by blast
  then show ?case
  proof cases
    case 1
    with "7.prems"(2) show ?thesis by simp
  next
    case 2
    from "7.prems"(1) have ok: "groups_ok Q r" by simp
    from "7.IH"(1) [OF ok "7.prems"(2) 2(1)] have "caps_ok Q m" .
    from "7.IH"(2) [OF 2(1) 2(2) "7.prems"(1) this 2(3)] show ?thesis .
  qed
next
  case (8 n r s)
  from "8.prems"(3) obtain m where m: "m \<in> set (matches r s)" "s' = close_group n s m"
    unfolding in_matches_Grp by blast
  from "8.prems"(1) have ok: "consumed_by r (Q n)" "groups_ok Q r" by simp_all
  from "8.IH" [OF ok(2) "8.prems"(2) m(1)] have cm: "caps_ok Q m" .
  from matches_after [OF m(1)] obtain u where u: "after s u m" by blast
  from ok(1) m(1) u have "Q n u" unfolding consumed_by_def by blast
  with cm show ?case
    unfolding m(2) caps_ok_def caps_close_group [OF u] by simp
qed

text \<open>A group that has a text keeps having one; a group on every path gets one.\<close>

lemma caps_kept:
  "caps s n \<noteq> None \<Longrightarrow> s' \<in> set (matches r s) \<Longrightarrow> caps s' n \<noteq> None"
proof (induction r s arbitrary: s' rule: matches.induct)
  case (1 p s)
  from "1.prems"(2) obtain c cs where "s' = consume s c cs"
    unfolding in_matches_Sym by blast
  with "1.prems"(1) show ?case by (simp add: consume_def)
next
  case (2 s)
  from "2.prems"(2) have "s' = s" by (simp split: if_splits)
  with "2.prems"(1) show ?case by simp
next
  case (3 s)
  from "3.prems"(2) have "s' = s" by simp
  with "3.prems"(1) show ?case by simp
next
  case (4 a b s)
  from "4.prems"(2) obtain m where m: "m \<in> set (matches a s)" "s' \<in> set (matches b m)"
    unfolding in_matches_Seq by blast
  from "4.IH"(1) [OF "4.prems"(1) m(1)] have "caps m n \<noteq> None" .
  from "4.IH"(2) [OF m(1) this m(2)] show ?case .
next
  case (5 a b s)
  from "5.prems"(2) have "s' \<in> set (matches a s) \<or> s' \<in> set (matches b s)" by simp
  then show ?case using "5.IH" "5.prems"(1) by blast
next
  case (6 r s)
  from "6.prems"(2) consider "s' = s"
    | m where "m \<in> set (matches r s)" "shorter (rest m) (rest s)" "s' \<in> set (matches (Star r) m)"
    unfolding in_matches_Star [of s' r s] by blast
  then show ?case
  proof cases
    case 1
    with "6.prems"(1) show ?thesis by simp
  next
    case 2
    from "6.IH"(1) [OF "6.prems"(1) 2(1)] have "caps m n \<noteq> None" .
    from "6.IH"(2) [OF 2(1) 2(2) this 2(3)] show ?thesis .
  qed
next
  case (7 r s)
  from "7.prems"(2) consider "s' = s"
    | m where "m \<in> set (matches r s)" "shorter (rest m) (rest s)" "s' \<in> set (matches (Lazy r) m)"
    unfolding in_matches_Lazy [of s' r s] by blast
  then show ?case
  proof cases
    case 1
    with "7.prems"(1) show ?thesis by simp
  next
    case 2
    from "7.IH"(1) [OF "7.prems"(1) 2(1)] have "caps m n \<noteq> None" .
    from "7.IH"(2) [OF 2(1) 2(2) this 2(3)] show ?thesis .
  qed
next
  case (8 k r s)
  from "8.prems"(2) obtain m where m: "m \<in> set (matches r s)" "s' = close_group k s m"
    unfolding in_matches_Grp by blast
  from "8.IH" [OF "8.prems"(1) m(1)] have "caps m n \<noteq> None" .
  then show ?case unfolding m(2) by (simp add: close_group_def)
qed

lemma caps_set:
  "sets_group n r \<Longrightarrow> s' \<in> set (matches r s) \<Longrightarrow> caps s' n \<noteq> None"
proof (induction r arbitrary: s s')
  case (Seq a b)
  from Seq.prems(2) obtain m where m: "m \<in> set (matches a s)" "s' \<in> set (matches b m)"
    unfolding in_matches_Seq by blast
  from Seq.prems(1) have "sets_group n a \<or> sets_group n b" by simp
  then show ?case
  proof
    assume "sets_group n a"
    from Seq.IH(1) [OF this m(1)] have "caps m n \<noteq> None" .
    from caps_kept [OF this m(2)] show ?thesis .
  next
    assume "sets_group n b"
    from Seq.IH(2) [OF this m(2)] show ?thesis .
  qed
next
  case (Alt a b)
  from Alt.prems(2) have "s' \<in> set (matches a s) \<or> s' \<in> set (matches b s)" by simp
  moreover from Alt.prems(1) have "sets_group n a" "sets_group n b" by simp_all
  ultimately show ?case using Alt.IH by blast
next
  case (Grp k r)
  from Grp.prems(2) obtain m where m: "m \<in> set (matches r s)" "s' = close_group k s m"
    unfolding in_matches_Grp by blast
  show ?case
  proof (cases "k = n")
    case True
    then show ?thesis unfolding m(2) by (simp add: close_group_def)
  next
    case False
    with Grp.prems(1) have "sets_group n r" by simp
    from Grp.IH [OF this m(1)] have "caps m n \<noteq> None" .
    then show ?thesis unfolding m(2) by (simp add: close_group_def)
  qed
qed simp_all

text \<open>What a search tells about the groups of its match.\<close>

lemma re_search_group:
  assumes "re_search r t = Some mt" and "groups_ok Q r" and "sets_group k r"
  shows "Q k (group mt k)"
proof -
  from re_search_Some [OF assms(1)] obtain pre cs pv st m where
    mt: "mt = to_match st m" and
    m: "m \<in> set (matches r \<lparr>pos = st, prev = pv, rest = cs, caps = Map.empty\<rparr>)"
    by blast
  have "caps_ok Q \<lparr>pos = st, prev = pv, rest = cs, caps = Map.empty\<rparr>"
    by (simp add: caps_ok_def)
  from caps_inv [OF assms(2) this m] have ok: "caps_ok Q m" .
  from caps_set [OF assms(3) m] obtain u where u: "caps m k = Some u" by blast
  with ok have "Q k u" by (simp add: caps_ok_def)
  with u show ?thesis by (simp add: group_def mt to_match_def)
qed

subsection \<open>Bounded repetition of a character class\<close>

lemma matches_times:
  "s' \<in> set (matches (times n (Sym p)) s) \<Longrightarrow>
     \<exists>u. after s u s' \<and> length u = n \<and> list_all p u"
proof (induction n arbitrary: s)
  case 0
  then have "s' = s" by simp
  then have "after s [] s' \<and> length ([] :: string) = 0 \<and> list_all p []"
    by (simp add: after_refl)
  then show ?case by fastforce
next
  case (Suc n)
  from Suc.prems obtain m where m: "m \<in> set (matches (Sym p) s)"
      "s' \<in> set (matches (times n (Sym p)) m)"
    unfolding times.simps in_matches_Seq by blast
  from m(1) obtain c cs where c: "rest s = c # cs" "p c" "m = consume s c cs"
    unfolding in_matches_Sym by blast
  from Suc.IH [OF m(2)] obtain u where u: "after m u s'" "length u = n" "list_all p u"
    by blast
  from c(1) c(3) have "after s [c] m" by (simp add: after_consume)
  from after_trans [OF this u(1)] have "after s (c # u) s'" by simp
  moreover have "length (c # u) = Suc n" "list_all p (c # u)"
    using u c(2) by simp_all
  ultimately show ?case by blast
qed

lemma matches_at_most:
  "s' \<in> set (matches (at_most n (Sym p)) s) \<Longrightarrow>
     \<exists>u. after s u s' \<and> length u \<le> n \<and> list_all p u"
proof (induction n arbitrary: s)
  case 0
  then have "s' = s" by simp
  then have "after s [] s' \<and> length ([] :: string) = 0 \<and> list_all p []"
    by (simp add: after_refl)
  then show ?case by fastforce
next
  case (Suc n)
  from Suc.prems have "s' \<in> set (matches (Seq (Sym p) (at_most n (Sym p))) s @ matches Eps s)"
    by (simp only: at_most.simps matches.simps(5))
  then have "s' \<in> set (matches (Seq (Sym p) (at_most n (Sym p))) s) \<or> s' = s"
    by (simp only: set_append Un_iff in_matches_Eps)
  then show ?case
  proof
    assume "s' \<in> set (matches (Seq (Sym p) (at_most n (Sym p))) s)"
    then obtain m where m: "m \<in> set (matches (Sym p) s)"
        "s' \<in> set (matches (at_most n (Sym p)) m)"
      unfolding in_matches_Seq by blast
    from m(1) obtain c cs where c: "rest s = c # cs" "p c" "m = consume s c cs"
      unfolding in_matches_Sym by blast
    from Suc.IH [OF m(2)] obtain u where u: "after m u s'" "length u \<le> n" "list_all p u"
      by blast
    from c(1) c(3) have "after s [c] m" by (simp add: after_consume)
    from after_trans [OF this u(1)] have "after s (c # u) s'" by simp
    moreover have "length (c # u) \<le> Suc n" "list_all p (c # u)"
      using u c(2) by simp_all
    ultimately show ?thesis by blast
  next
    assume "s' = s"
    then have "after s [] s' \<and> length ([] :: string) \<le> Suc n \<and> list_all p []"
      by (simp add: after_refl)
    then show ?thesis by blast
  qed
qed

lemma consumed_by_rep:
  assumes "lo \<le> hi"
  shows "consumed_by (rep (Sym p) lo hi) (\<lambda>u. list_all p u \<and> lo \<le> length u \<and> length u \<le> hi)"
  unfolding consumed_by_def
proof (intro allI impI)
  fix s s' u
  assume a: "s' \<in> set (matches (rep (Sym p) lo hi) s)" and b: "after s u s'"
  from a obtain m where m: "m \<in> set (matches (times lo (Sym p)) s)"
      "s' \<in> set (matches (at_most (hi - lo) (Sym p)) m)"
    unfolding rep_def in_matches_Seq by blast
  from matches_times [OF m(1)] obtain v where v: "after s v m" "length v = lo" "list_all p v"
    by blast
  from matches_at_most [OF m(2)] obtain w where
    w: "after m w s'" "length w \<le> hi - lo" "list_all p w"
    by blast
  from after_trans [OF v(1) w(1)] b have "u = v @ w" by (rule after_same [symmetric])
  with v w assms show "list_all p u \<and> lo \<le> length u \<and> length u \<le> hi"
    by simp
qed

lemma consumed_by_digits [simp]:
  "lo \<le> hi \<Longrightarrow> consumed_by (rep (Sym is_digit) lo hi) (digits lo hi)"
  using consumed_by_rep [of lo hi is_digit] by (simp add: digits_def [abs_def])

lemma consumed_by_True [simp]: "consumed_by r (\<lambda>u. True)"
  by (simp add: consumed_by_def)

subsection \<open>Groups of the pattern notation\<close>

lemma groups_ok_seqs [simp]: "groups_ok Q (seqs rs) = list_all (groups_ok Q) rs"
  by (induction rs) (simp_all add: seqs_def)

lemma groups_ok_lits_i [simp]: "groups_ok Q (lits_i w)"
  by (induction w) (simp_all add: lits_i_def lit_i_def)

lemma groups_ok_lits [simp]: "groups_ok Q (lits w)"
  by (induction w) (simp_all add: lits_def lit_def)

lemma groups_ok_times [simp]: "groups_ok Q (times n (Sym p))"
  by (induction n) simp_all

lemma groups_ok_at_most [simp]: "groups_ok Q (at_most n (Sym p))"
  by (induction n) simp_all

lemma groups_ok_rep [simp]: "groups_ok Q (rep (Sym p) lo hi)"
  by (simp add: rep_def)

lemma sets_group_seqs [simp]: "sets_group n (seqs rs) = list_ex (sets_group n) rs"
  by (induction rs) (simp_all add: seqs_def)

lemmas notation_defs = plus_def opt_def lit_def lit_i_def one_of_def one_of_i_def D_def S_def
  W_def

subsection \<open>The groups of the date patterns\<close>

lemma date_spelled_groups:
  assumes "re_search date_spelled t = Some m"
  shows "digits 1 2 (group m 1) \<and> digits 4 4 (group m 3)"
proof -
  let ?Q = "\<lambda>n u. (n = 1 \<longrightarrow> digits 1 2 u) \<and> (n = 3 \<longrightarrow> digits 4 4 u)"
  have ok: "groups_ok ?Q date_spelled"
    by (simp add: date_spelled_def notation_defs)
  have "sets_group 1 date_spelled" "sets_group 3 date_spelled"
    by (simp_all add: date_spelled_def)
  from re_search_group [OF assms ok this(1)] re_search_group [OF assms ok this(2)]
  show ?thesis by simp
qed

lemma date_slash_groups:
  assumes "re_search date_slash t = Some m"
  shows "digits 1 2 (group m 1) \<and> digits 1 2 (group m 2) \<and> digits 4 4 (group m 3)"
proof -
  let ?Q = "\<lambda>n u. (n = 1 \<longrightarrow> digits 1 2 u) \<and> (n = 2 \<longrightarrow> digits 1 2 u) \<and> (n = 3 \<longrightarrow> digits 4 4 u)"
  have ok: "groups_ok ?Q date_slash"
    by (simp add: date_slash_def notation_defs)
  have "sets_group 1 date_slash" "sets_group 2 date_slash" "sets_group 3 date_slash"
    by (simp_all add: date_slash_def)
  from re_search_group [OF assms ok this(1)] re_search_group [OF assms ok this(2)]
    re_search_group [OF assms ok this(3)]
  show ?thesis by simp
qed

lemma date_iso_groups:
  assumes "re_search date_iso t = Some m"
  shows "digits 4 4 (group m 1) \<and> digits 1 2 (group m 2) \<and> digits 1 2 (group m 3)"
proof -
  let ?Q = "\<lambda>n u. (n = 1 \<longrightarrow> digits 4 4 u) \<and> (n = 2 \<longrightarrow> digits 1 2 u) \<and> (n = 3 \<longrightarrow> digits 1 2 u)"
  have ok: "groups_ok ?Q date_iso"
    by (simp add: date_iso_def notation_defs)
  have "sets_group 1 date_iso" "sets_group 2 date_iso" "sets_group 3 date_iso"
    by (simp_all add: date_iso_def)
  from re_search_group [OF assms ok this(1)] re_search_group [OF assms ok this(2)]
    re_search_group [OF assms ok this(3)]
  show ?thesis by simp
qed

lemma firma_numeric_groups:
  assumes "re_search firma_numeric t = Some m"
  shows "digits 1 2 (group m 1) \<and> digits 1 2 (group m 2) \<and> digits 2 4 (group m 3)"
proof -
  let ?Q = "\<lambda>n u. (n = 1 \<longrightarrow> digits 1 2 u) \<and> (n = 2 \<longrightarrow> digits 1 2 u) \<and> (n = 3 \<longrightarrow> digits 2 4 u)"
  have ok: "groups_ok ?Q firma_numeric"
    by (simp add: firma_numeric_def notation_defs)
  have "sets_group 1 firma_numeric" "sets_group 2 firma_numeric" "sets_group 3 firma_numeric"
    by (simp_all add: firma_numeric_def)
  from re_search_group [OF assms ok this(1)] re_search_group [OF assms ok this(2)]
    re_search_group [OF assms ok this(3)]
  show ?thesis by simp
qed

lemma firma_spelled_groups:
  assumes "re_search firma_spelled t = Some m"
  shows "digits 1 2 (group m 1) \<and> digits 4 4 (group m 3)"
proof -
  let ?Q = "\<lambda>n u. (n = 1 \<longrightarrow> digits 1 2 u) \<and> (n = 3 \<longrightarrow> digits 4 4 u)"
  have ok: "groups_ok ?Q firma_spelled"
    by (simp add: firma_spelled_def notation_defs)
  have "sets_group 1 firma_spelled" "sets_group 3 firma_spelled"
    by (simp_all add: firma_spelled_def)
  from re_search_group [OF assms ok this(1)] re_search_group [OF assms ok this(2)]
  show ?thesis by simp
qed

subsection \<open>The title pattern\<close>

lemma lower_convenio: "lower ''convenio'' = ''convenio''"
  by code_simp

lemma length_lower: "length (lower u) = length u"
  by (simp add: lower_def)

lemma convenio_runs_to_end_split:
  "convenio_runs_to_end (pre @ w @ post) \<Longrightarrow> lower w = ''convenio'' \<Longrightarrow> \<not> has_terminator post"
proof (induction pre)
  case Nil
  have len: "length w = 8"
    using Nil.prems(2) length_lower [of w] by simp
  then obtain c cs where w: "w = c # cs" by (cases w) auto
  from len have "take 8 (w @ post) = w" "drop 8 (w @ post) = post" by simp_all
  with Nil.prems w show ?case
    by (metis append_Cons append_Nil convenio_runs_to_end.simps(2))
next
  case (Cons a pre)
  then show ?case by simp
qed

lemma title_pat_needs_terminator:
  assumes "m \<in> set (matches title_pat s)"
  shows "\<exists>w post. lower w = ''convenio'' \<and> has_terminator post \<and> rest s = w @ post"
proof -
  from assms obtain s1 s2 s3 s4 where
    s1: "s1 \<in> set (matches (lits_i ''convenio'') s)" and
    s2: "s2 \<in> set (matches (plus S) s1)" and
    s3: "s3 \<in> set (matches (Grp 1 (lazy_plus dot)) s2)" and
    s4: "s4 \<in> set (matches (Alt (lit NL) (lit CHR ''.'')) s3)"
    unfolding title_pat_def in_matches_seqs_Cons in_matches_seqs_Nil by blast
  from matches_lits_i [OF s1] obtain w where w: "after s w s1" "lower w = ''convenio''"
    using lower_convenio by auto
  from matches_after [OF s2] obtain u1 where u1: "after s1 u1 s2" by blast
  from matches_after [OF s3] obtain u2 where u2: "after s2 u2 s3" by blast
  from s4 have "s4 \<in> set (matches (lit NL) s3) \<or> s4 \<in> set (matches (lit CHR ''.'') s3)"
    by simp
  then obtain c cs where c: "rest s3 = c # cs" "c = NL \<or> c = CHR ''.''"
    unfolding in_matches_lit by blast
  have "rest s = w @ (u1 @ u2 @ c # cs)"
    using w(1) u1 u2 c(1) by (simp add: after_def)
  moreover have "has_terminator (u1 @ u2 @ c # cs)"
    using c(2) by (auto simp add: has_terminator_def)
  ultimately show ?thesis using w(2) by blast
qed

subsection \<open>The shape of a date\<close>

lemma digit_chars: "is_digit CHR ''0''" "is_digit CHR ''1''" "is_digit CHR ''2''"
    "is_digit CHR ''9''" "\<not> is_digit CHR ''+''" "\<not> is_digit CHR ''-''"
  by code_simp+

lemma zfill_digits:
  assumes "digits 1 2 u"
  shows "digits 2 2 (zfill 2 u)"
proof (cases "length u = 2")
  case True
  with assms show ?thesis by (simp add: zfill_def digits_def)
next
  case False
  with assms have "length u = 1" by (simp add: digits_def)
  then obtain a where u: "u = [a]" by (cases u) auto
  with assms have a: "is_digit a" by (simp add: digits_def)
  with digit_chars have "a \<noteq> CHR ''+''" "a \<noteq> CHR ''-''" by auto
  with a show ?thesis by (simp add: u zfill_def digits_def digit_chars)
qed

lemma month_values: "list_all (\<lambda>kv. digits 2 2 (snd kv)) month_map"
  by code_simp

lemma digits_default_month: "digits 2 2 ''01''"
  by code_simp

lemma month_of_digits: "digits 2 2 (month_of x)"
proof (cases "map_of month_map (lower x)")
  case None
  then show ?thesis by (simp add: month_of_def digits_default_month)
next
  case (Some mm)
  then have "(lower x, mm) \<in> set month_map" by (rule map_of_SomeD)
  with month_values have "digits 2 2 mm" by (auto simp add: list_all_iff)
  with Some show ?thesis by (simp add: month_of_def)
qed

lemma date_shaped_intro:
  assumes "digits n n y" and "digits 2 2 m" and "digits 2 2 d"
  shows "date_shaped n (y @ ''-'' @ m @ ''-'' @ d)"
proof -
  from assms(1) have y: "length y = n" "list_all is_digit y" by (simp_all add: digits_def)
  from assms(2) have m: "length m = 2" "list_all is_digit m" by (simp_all add: digits_def)
  from assms(3) have d: "length d = 2" "list_all is_digit d" by (simp_all add: digits_def)
  have 1: "take n (y @ ''-'' @ m @ ''-'' @ d) = y" using y(1) by simp
  have 2: "drop n (y @ ''-'' @ m @ ''-'' @ d) = ''-'' @ m @ ''-'' @ d" using y(1) by simp
  have 3: "drop (n + 1) (y @ ''-'' @ m @ ''-'' @ d) = m @ ''-'' @ d" using y(1) by simp
  have 4: "drop (n + 3) (y @ ''-'' @ m @ ''-'' @ d) = ''-'' @ d" using y(1) m(1) by simp
  have 5: "drop (n + 4) (y @ ''-'' @ m @ ''-'' @ d) = d" using y(1) m(1) by simp
  have 6: "take 2 (m @ ''-'' @ d) = m" using m(1) by simp
  show ?thesis
    unfolding date_shaped_def 1 2 3 4 5 6 using y m d by simp
qed

lemma digits_same: "digits 2 2 u \<Longrightarrow> zfill 2 u = u"
  by (simp add: zfill_def digits_def)

lemma expand_year_digits:
  assumes "digits 2 4 y"
  shows "digits 4 4 (expand_year y) \<or> digits 3 3 (expand_year y)"
proof (cases "length y = 2")
  case True
  with assms show ?thesis
    by (simp add: expand_year_def digits_def digit_chars)
next
  case False
  with assms have "length y = 3 \<or> length y = 4" by (auto simp add: digits_def)
  with False assms show ?thesis
    by (auto simp add: expand_year_def digits_def)
qed

lemma resolution_fecha_shaped:
  assumes "first_match date_patterns t = Some tm"
  shows "date_shaped 4 (resolution_fecha tm)"
proof -
  obtain tag m where tm: "tm = (tag, m)" by (cases tm)
  from assms tm consider
      "tag" "re_search date_spelled t = Some m"
    | "\<not> tag" "re_search date_slash t = Some m"
    | "\<not> tag" "re_search date_iso t = Some m"
    by (auto simp add: date_patterns_def split: option.splits)
  then show ?thesis
  proof cases
    case 1
    from date_spelled_groups [OF 1(2)]
    have g: "digits 1 2 (group m 1)" "digits 4 4 (group m 3)" by simp_all
    have "date_shaped 4 (group m 3 @ ''-'' @ zfill 2 (month_of (group m 2)) @ ''-'' @
        zfill 2 (group m 1))"
      using g(2) month_of_digits zfill_digits [OF g(1)]
      by (simp only: digits_same [OF month_of_digits] date_shaped_intro)
    with 1(1) show ?thesis by (simp add: resolution_fecha_def tm)
  next
    case 2
    from date_slash_groups [OF 2(2)]
    have g: "digits 1 2 (group m 1)" "digits 1 2 (group m 2)" "digits 4 4 (group m 3)"
      by simp_all
    from g(1) have "length (group m 1) \<noteq> 4" by (simp add: digits_def)
    moreover have "date_shaped 4 (group m 3 @ ''-'' @ zfill 2 (group m 2) @ ''-'' @
        zfill 2 (group m 1))"
      using g(3) zfill_digits [OF g(2)] zfill_digits [OF g(1)] by (rule date_shaped_intro)
    ultimately show ?thesis using 2(1) by (simp add: resolution_fecha_def tm)
  next
    case 3
    from date_iso_groups [OF 3(2)]
    have g: "digits 4 4 (group m 1)" "digits 1 2 (group m 2)" "digits 1 2 (group m 3)"
      by simp_all
    from g(1) have "length (group m 1) = 4" by (simp add: digits_def)
    moreover have "date_shaped 4 (group m 1 @ ''-'' @ zfill 2 (group m 2) @ ''-'' @
        zfill 2 (group m 3))"
      using g(1) zfill_digits [OF g(2)] zfill_digits [OF g(3)] by (rule date_shaped_intro)
    ultimately show ?thesis using 3(1) by (simp add: resolution_fecha_def tm)
  qed
qed

lemma firma_fecha_shaped:
  assumes "first_match firma_patterns t = Some tm"
  shows "date_shaped 4 (firma_fecha tm) \<or> date_shaped 3 (firma_fecha tm)"
proof -
  obtain tag m where tm: "tm = (tag, m)" by (cases tm)
  from assms tm consider
      "\<not> tag" "re_search firma_numeric t = Some m"
    | "tag" "re_search firma_spelled t = Some m"
    by (auto simp add: firma_patterns_def split: option.splits)
  then show ?thesis
  proof cases
    case 1
    from firma_numeric_groups [OF 1(2)]
    have g: "digits 1 2 (group m 1)" "digits 1 2 (group m 2)" "digits 2 4 (group m 3)"
      by simp_all
    from expand_year_digits [OF g(3)]
    have "date_shaped 4 (expand_year (group m 3) @ ''-'' @ zfill 2 (group m 2) @ ''-'' @
          zfill 2 (group m 1)) \<or>
        date_shaped 3 (expand_year (group m 3) @ ''-'' @ zfill 2 (group m 2) @ ''-'' @
          zfill 2 (group m 1))"
      using zfill_digits [OF g(2)] zfill_digits [OF g(1)] date_shaped_intro by blast
    with 1(1) show ?thesis by (simp add: firma_fecha_def tm)
  next
    case 2
    from firma_spelled_groups [OF 2(2)]
    have g: "digits 1 2 (group m 1)" "digits 4 4 (group m 3)" by simp_all
    have "date_shaped 4 (group m 3 @ ''-'' @ zfill 2 (month_of (group m 2)) @ ''-'' @
        zfill 2 (group m 1))"
      using g(2) month_of_digits zfill_digits [OF g(1)]
      by (simp only: digits_same [OF month_of_digits] date_shaped_intro)
    with 2(1) show ?thesis by (simp add: firma_fecha_def tm)
  qed
qed

subsection \<open>The first match from a position\<close>

lemma match_at_state:
  "match_at r i (prev (state_at t i)) (drop i t) =
     (if begins_at r t i then Some (i, hd (matches r (state_at t i))) else None)"
  by (cases "matches r (state_at t i)")
     (simp_all add: match_at_def begins_at_def state_at_def)

lemma search_from_first:
  assumes "k \<le> length t" and "begins_at r t k"
    and "\<forall>j. i \<le> j \<and> j < k \<longrightarrow> \<not> begins_at r t j" and "i \<le> k"
  shows "search_from r i (prev (state_at t i)) (drop i t) =
     Some (k, hd (matches r (state_at t k)))"
  using assms(3,4)
proof (induction "k - i" arbitrary: i)
  case 0
  then have ik: "i = k" by simp
  show ?case
  proof (cases "drop k t")
    case Nil
    then show ?thesis
      using match_at_state [of r k t] assms(2) by (simp add: ik)
  next
    case (Cons c cs)
    then show ?thesis
      using match_at_state [of r k t] assms(2) by (simp add: ik)
  qed
next
  case (Suc n)
  then have lt: "i < k" by simp
  with assms(1) have il: "i < length t" by simp
  then have dr: "drop i t = t ! i # drop (Suc i) t"
    by (simp add: Cons_nth_drop_Suc)
  from Suc.prems(1) lt have nb: "\<not> begins_at r t i" by simp
  have pv: "prev (state_at t (Suc i)) = Some (t ! i)"
    by (simp add: state_at_def)
  have "search_from r i (prev (state_at t i)) (drop i t) =
      search_from r (Suc i) (prev (state_at t (Suc i))) (drop (Suc i) t)"
    using match_at_state [of r i t] nb dr pv by simp
  also have "\<dots> = Some (k, hd (matches r (state_at t k)))"
  proof (rule Suc.hyps(1))
    show "n = k - Suc i" using Suc.hyps(2) by simp
    show "\<forall>j. Suc i \<le> j \<and> j < k \<longrightarrow> \<not> begins_at r t j" using Suc.prems(1) by simp
    show "Suc i \<le> k" using lt by simp
  qed
  finally show ?case .
qed

lemma re_search_first:
  assumes "k \<le> length t" and "leads r (state_at t k) m"
    and "\<forall>j < k. \<not> begins_at r t j"
  shows "re_search r t = Some (to_match k m)"
proof -
  from assms(2) have b: "begins_at r t k" and h: "hd (matches r (state_at t k)) = m"
    by (auto simp add: leads_def begins_at_def)
  have p0: "prev (state_at t 0) = None" by (simp add: state_at_def)
  have "search_from r 0 (prev (state_at t 0)) (drop 0 t) =
      Some (k, hd (matches r (state_at t k)))"
    using assms(1) b assms(3) by (intro search_from_first) simp_all
  then have "search_from r 0 None t = Some (k, m)"
    by (simp add: p0 h)
  then show ?thesis
    by (simp add: re_search_def)
qed

subsection \<open>The first outcome of a pattern\<close>

lemma leads_Seq: "leads a s m \<Longrightarrow> leads b m s' \<Longrightarrow> leads (Seq a b) s s'"
  by (auto simp add: leads_def)

lemma leads_Eps: "leads Eps s s"
  by (simp add: leads_def)

lemma leads_seqs_Nil: "leads (seqs []) s s"
  by (simp add: seqs_def leads_Eps)

lemma leads_seqs_Cons: "leads r s m \<Longrightarrow> leads (seqs rs) m s' \<Longrightarrow> leads (seqs (r # rs)) s s'"
  unfolding seqs_def foldr.simps comp_def by (rule leads_Seq)

lemma leads_Sym: "rest s = c # cs \<Longrightarrow> p c \<Longrightarrow> leads (Sym p) s (consume s c cs)"
  by (simp add: leads_def)

lemma leads_Alt1: "leads a s m \<Longrightarrow> leads (Alt a b) s m"
  by (auto simp add: leads_def)

lemma leads_Grp: "leads r s m \<Longrightarrow> leads (Grp n r) s (close_group n s m)"
  by (auto simp add: leads_def)

lemma leads_in: "leads r s m \<Longrightarrow> m \<in> set (matches r s)"
  by (auto simp add: leads_def)

text \<open>A step of the walk through a pattern: the part \<open>r\<close> takes \<open>u\<close> off the text and
  leaves the groups as they are.\<close>

lemma takes_Sym:
  assumes "rest s = c # cs" and "p c"
  shows "takes (Sym p) s [c] (consume s c cs)"
  using assms leads_Sym [of s c cs p] by (simp add: takes_def consume_def)

lemma takes_Seq: "takes a s u m \<Longrightarrow> takes b m v s' \<Longrightarrow> takes (Seq a b) s (u @ v) s'"
  unfolding takes_def using leads_Seq by auto

lemma takes_Eps: "takes Eps s [] s"
  by (simp add: takes_def leads_Eps)

lemma takes_lits_i:
  "rest s = u @ r \<Longrightarrow> lower u = lower w \<Longrightarrow> \<exists>m. takes (lits_i w) s u m \<and> rest m = r"
proof (induction w arbitrary: u s)
  case Nil
  then have "u = []" by (simp add: lower_def)
  with Nil.prems(1) have "takes (lits_i []) s u s \<and> rest s = r"
    using takes_Eps [of s] by (simp add: lits_i_def seqs_def)
  then show ?case by blast
next
  case (Cons c w)
  from Cons.prems(2) obtain x u' where u: "u = x # u'" "lower_chr x = lower_chr c"
      "lower u' = lower w"
    by (cases u) (auto simp add: lower_def)
  let ?m = "consume s x (u' @ r)"
  from Cons.prems(1) u(1) have rs: "rest s = x # (u' @ r)" by simp
  have 1: "takes (lit_i c) s [x] ?m"
    unfolding lit_i_def using rs u(2) by (rule takes_Sym)
  have "rest ?m = u' @ r" by (simp add: consume_def)
  from Cons.IH [OF this u(3)] obtain m where m: "takes (lits_i w) ?m u' m" "rest m = r"
    by blast
  have "takes (Seq (lit_i c) (lits_i w)) s ([x] @ u') m"
    using 1 m(1) by (rule takes_Seq)
  then have "takes (lits_i (c # w)) s u m"
    by (simp add: lits_i_def seqs_def u(1))
  with m(2) show ?case by blast
qed

lemma takes_times:
  "rest s = u @ r \<Longrightarrow> list_all p u \<Longrightarrow> length u = n \<Longrightarrow>
     \<exists>m. takes (times n (Sym p)) s u m \<and> rest m = r"
proof (induction n arbitrary: u s)
  case 0
  then have "takes (times 0 (Sym p)) s u s \<and> rest s = r"
    using takes_Eps [of s] by simp
  then show ?case by blast
next
  case (Suc n)
  from Suc.prems(3) obtain x u' where u: "u = x # u'" by (cases u) auto
  let ?m = "consume s x (u' @ r)"
  from Suc.prems(1) u have rs: "rest s = x # (u' @ r)" by simp
  from Suc.prems(2) u have px: "p x" and pu: "list_all p u'" by simp_all
  have 1: "takes (Sym p) s [x] ?m" using rs px by (rule takes_Sym)
  have "rest ?m = u' @ r" by (simp add: consume_def)
  from Suc.IH [OF this pu] Suc.prems(3) u obtain m where
    m: "takes (times n (Sym p)) ?m u' m" "rest m = r"
    by auto
  have "takes (Seq (Sym p) (times n (Sym p))) s ([x] @ u') m"
    using 1 m(1) by (rule takes_Seq)
  with m(2) u show ?case by auto
qed

lemma matches_Sym_stops: "stops p (rest s) \<Longrightarrow> matches (Sym p) s = []"
  by (cases "rest s") (simp_all add: stops_def)

lemma takes_at_most:
  "rest s = u @ r \<Longrightarrow> list_all p u \<Longrightarrow> length u \<le> n \<Longrightarrow> length u = n \<or> stops p r \<Longrightarrow>
     \<exists>m. takes (at_most n (Sym p)) s u m \<and> rest m = r"
proof (induction n arbitrary: u s)
  case 0
  then have "takes (at_most 0 (Sym p)) s u s \<and> rest s = r"
    using takes_Eps [of s] by simp
  then show ?case by blast
next
  case (Suc n)
  show ?case
  proof (cases u)
    case Nil
    with Suc.prems have "stops p (rest s)" by simp
    then have "matches (Sym p) s = []" by (rule matches_Sym_stops)
    then have e: "matches (at_most (Suc n) (Sym p)) s = [s]"
      by (simp del: matches.simps(1))
    have "takes (at_most (Suc n) (Sym p)) s [] s"
      unfolding takes_def leads_def e by simp
    with Nil Suc.prems(1) show ?thesis by auto
  next
    case (Cons x u')
    let ?m = "consume s x (u' @ r)"
    from Suc.prems(1) Cons have rs: "rest s = x # (u' @ r)" by simp
    from Suc.prems(2) Cons have px: "p x" and pu: "list_all p u'" by simp_all
    have 1: "takes (Sym p) s [x] ?m" using rs px by (rule takes_Sym)
    have rm: "rest ?m = u' @ r" by (simp add: consume_def)
    from Suc.prems(3,4) Cons have "length u' \<le> n" "length u' = n \<or> stops p r" by auto
    from Suc.IH [OF rm pu this] obtain m where
      m: "takes (at_most n (Sym p)) ?m u' m" "rest m = r"
      by blast
    have "takes (Seq (Sym p) (at_most n (Sym p))) s ([x] @ u') m"
      using 1 m(1) by (rule takes_Seq)
    then have "takes (at_most (Suc n) (Sym p)) s u m"
      by (simp add: takes_def Cons leads_Alt1)
    with m(2) show ?thesis by blast
  qed
qed

lemma takes_rep:
  assumes "rest s = u @ r" and "list_all p u" and "lo \<le> length u" and "length u \<le> hi"
    and "length u = hi \<or> stops p r"
  shows "\<exists>m. takes (rep (Sym p) lo hi) s u m \<and> rest m = r"
proof -
  let ?v = "take lo u" and ?w = "drop lo u"
  have u: "u = ?v @ ?w" by simp
  have "rest s = ?v @ (?w @ r)" using assms(1) by simp
  moreover have "list_all p ?v" using assms(2) by (metis append_take_drop_id list_all_append)
  moreover have "length ?v = lo" using assms(3) by simp
  ultimately obtain m1 where m1: "takes (times lo (Sym p)) s ?v m1" "rest m1 = ?w @ r"
    using takes_times by blast
  have "list_all p ?w" using assms(2) by (metis append_take_drop_id list_all_append)
  moreover have "length ?w \<le> hi - lo" using assms(4) by simp
  moreover have "length ?w = hi - lo \<or> stops p r" using assms(3,5) by auto
  ultimately obtain m where m: "takes (at_most (hi - lo) (Sym p)) m1 ?w m" "rest m = r"
    using takes_at_most [OF m1(2)] by blast
  have "takes (Seq (times lo (Sym p)) (at_most (hi - lo) (Sym p))) s (?v @ ?w) m"
    using m1(1) m(1) by (rule takes_Seq)
  then have "takes (rep (Sym p) lo hi) s u m" by (simp add: rep_def)
  with m(2) show ?thesis by blast
qed

lemma takes_Star_run:
  "rest s = u @ r \<Longrightarrow> list_all p u \<Longrightarrow> stops p r \<Longrightarrow>
     \<exists>m. takes (Star (Sym p)) s u m \<and> rest m = r"
proof (induction u arbitrary: s)
  case Nil
  then have "stops p (rest s)" by simp
  then have "matches (Sym p) s = []" by (rule matches_Sym_stops)
  then have e: "matches (Star (Sym p)) s = [s]"
    by (subst matches.simps) (simp del: matches.simps(1))
  have "takes (Star (Sym p)) s [] s"
    unfolding takes_def leads_def e by simp
  with Nil.prems(1) show ?case by auto
next
  case (Cons x u)
  let ?m = "consume s x (u @ r)"
  from Cons.prems(1) have rs: "rest s = x # (u @ r)" by simp
  from Cons.prems(2) have px: "p x" and pu: "list_all p u" by simp_all
  have rm: "rest ?m = u @ r" by (simp add: consume_def)
  from Cons.IH [OF rm pu Cons.prems(3)] obtain m where
    m: "takes (Star (Sym p)) ?m u m" "rest m = r"
    by blast
  then obtain tl where tl: "matches (Star (Sym p)) ?m = m # tl"
    by (auto simp add: takes_def leads_def)
  have one: "matches (Sym p) s = [?m]" using rs px by simp
  have sh: "shorter (rest ?m) (rest s)" by (simp add: shorter_iff rs rm)
  have "matches (Star (Sym p)) s = matches (Star (Sym p)) ?m @ [s]"
    by (subst matches.simps) (simp del: matches.simps(1) add: one sh)
  then have "leads (Star (Sym p)) s m" by (simp add: leads_def tl)
  moreover have "rest s = (x # u) @ rest m" using rs m(2) by simp
  moreover have "caps m = caps s" using m(1) by (simp add: takes_def consume_def)
  ultimately have "takes (Star (Sym p)) s (x # u) m" by (simp add: takes_def)
  with m(2) show ?case by blast
qed

lemma takes_plus_run:
  assumes "rest s = u @ r" and "u \<noteq> []" and "list_all p u" and "stops p r"
  shows "\<exists>m. takes (plus (Sym p)) s u m \<and> rest m = r"
proof -
  from assms(2) obtain x u' where u: "u = x # u'" by (cases u) auto
  let ?m = "consume s x (u' @ r)"
  from assms(1) u have rs: "rest s = x # (u' @ r)" by simp
  from assms(3) u have px: "p x" and pu: "list_all p u'" by simp_all
  have 1: "takes (Sym p) s [x] ?m" using rs px by (rule takes_Sym)
  have rm: "rest ?m = u' @ r" by (simp add: consume_def)
  from takes_Star_run [OF rm pu assms(4)] obtain m where
    m: "takes (Star (Sym p)) ?m u' m" "rest m = r"
    by blast
  have "takes (Seq (Sym p) (Star (Sym p))) s ([x] @ u') m"
    using 1 m(1) by (rule takes_Seq)
  then have "takes (plus (Sym p)) s u m" by (simp add: plus_def u)
  with m(2) show ?thesis by blast
qed

text \<open>A group around a step records what the step took.\<close>

lemma leads_group:
  assumes "takes r s u m"
  shows "leads (Grp n r) s (close_group n s m) \<and> rest (close_group n s m) = rest m \<and>
     caps (close_group n s m) = (caps s)(n \<mapsto> u)"
proof -
  from assms have l: "leads r s m" and rs: "rest s = u @ rest m" and c: "caps m = caps s"
    by (simp_all add: takes_def)
  from matches_after [OF leads_in [OF l]] obtain v where v: "after s v m" by blast
  with rs have "v = u" by (simp add: after_def)
  with v have "after s u m" by simp
  from caps_close_group [OF this] c have "caps (close_group n s m) = (caps s)(n \<mapsto> u)"
    by simp
  moreover have "rest (close_group n s m) = rest m" by (simp add: close_group_def)
  ultimately show ?thesis using leads_Grp [OF l] by simp
qed

subsection \<open>Characters of the signing-date phrase\<close>

lemma letter_is_word:
  assumes "is_ascii_letter (lower_chr c)"
  shows "is_word c \<and> \<not> is_space c"
proof (cases c)
  case (Char b0 b1 b2 b3 b4 b5 b6 b7)
  from assms show ?thesis
    unfolding Char
    by (cases b0; cases b1; cases b2; cases b3; cases b4; cases b5; cases b6; cases b7;
        simp add: lower_chr_Char is_upper_Char is_ascii_letter_Char is_word_Char
          is_space_Char)
qed

lemma digit_not_space: "is_digit c \<Longrightarrow> \<not> is_space c"
  by (auto simp add: is_digit_def is_space_def)

lemma phrase_chars:
  "is_space CHR '' ''" "\<not> is_space CHR ''e''" "\<not> is_space CHR ''d''"
  "\<not> is_word CHR '' ''" "\<not> is_digit CHR '' ''"
  "lower_chr CHR ''i'' \<in> set (map lower_chr [CHR ''i'', CHR ''|'', i_acute])"
  by code_simp+

lemma month_keys: "list_all (\<lambda>kv. fst kv \<noteq> [] \<and> list_all is_ascii_letter (fst kv)) month_map"
  by code_simp

lemma month_name_letters:
  assumes "map_of month_map (lower mes) = Some mm"
  shows "mes \<noteq> [] \<and> list_all is_word mes \<and> \<not> is_space (hd mes) \<and> digits 2 2 mm"
proof -
  from assms have in_map: "(lower mes, mm) \<in> set month_map" by (rule map_of_SomeD)
  with month_keys have k: "lower mes \<noteq> []" "list_all is_ascii_letter (lower mes)"
    by (auto simp add: list_all_iff)
  from in_map month_values have mm: "digits 2 2 mm" by (auto simp add: list_all_iff)
  from k(1) have ne: "mes \<noteq> []" by (auto simp add: lower_def)
  from k(2) have "\<forall>c \<in> set mes. is_ascii_letter (lower_chr c)"
    by (simp add: lower_def list_all_iff)
  then have all: "\<forall>c \<in> set mes. is_word c \<and> \<not> is_space c"
    using letter_is_word by blast
  then have "list_all is_word mes" by (simp add: list_all_iff)
  moreover from all ne have "\<not> is_space (hd mes)" by simp
  ultimately show ?thesis using ne mm by simp
qed

subsection \<open>Steps through the parts of a pattern\<close>

lemma takes_one_of_i:
  assumes "rest s = c # r" and "lower_chr c \<in> set (map lower_chr cs)"
  shows "\<exists>m. takes (one_of_i cs) s [c] m \<and> rest m = r"
proof -
  have "takes (Sym (\<lambda>x. lower_chr x \<in> set (map lower_chr cs))) s [c] (consume s c r)"
    using assms by (rule takes_Sym)
  moreover have "rest (consume s c r) = r" by (simp add: consume_def)
  ultimately show ?thesis unfolding one_of_i_def by blast
qed

lemma takes_opt_lit_i:
  assumes "rest s = c # r" and "lower_chr c = lower_chr k"
  shows "\<exists>m. takes (opt (lit_i k)) s [c] m \<and> rest m = r"
proof -
  have "takes (Sym (\<lambda>x. lower_chr x = lower_chr k)) s [c] (consume s c r)"
    using assms by (rule takes_Sym)
  then have "takes (opt (lit_i k)) s [c] (consume s c r)"
    unfolding opt_def lit_i_def takes_def using leads_Alt1 by blast
  moreover have "rest (consume s c r) = r" by (simp add: consume_def)
  ultimately show ?thesis by blast
qed

lemma takes_space:
  assumes "rest s = CHR '' '' # r" and "stops is_space r"
  shows "\<exists>m. takes (plus S) s '' '' m \<and> rest m = r"
  unfolding S_def
proof (rule takes_plus_run)
  show "rest s = '' '' @ r" using assms(1) by simp
  show "'' '' \<noteq> []" by simp
  show "list_all is_space '' ''" by (simp add: phrase_chars)
  show "stops is_space r" by (rule assms(2))
qed

lemma group_step:
  assumes "\<exists>m. takes r s u m \<and> rest m = r'"
  shows "\<exists>m. leads (Grp n r) s m \<and> rest m = r' \<and> caps m = (caps s)(n \<mapsto> u)"
proof -
  from assms obtain m where m: "takes r s u m" "rest m = r'" by blast
  from leads_group [OF m(1), of n] m(2) show ?thesis by auto
qed

lemma stops_Cons: "\<not> p c \<Longrightarrow> stops p (c # cs)"
  by (simp add: stops_def)

lemma stops_hd: "u \<noteq> [] \<Longrightarrow> \<not> p (hd u) \<Longrightarrow> stops p (u @ r)"
  by (cases u) (simp_all add: stops_def)


lemma firma_spelled_walk:
  assumes r0: "rest s0 = ''suscripto el '' @ d @ '' de '' @ mes @ '' de '' @ y @ post"
    and d: "digits 1 2 d" and mes: "map_of month_map (lower mes) = Some mm"
    and y: "digits 4 4 y"
  shows "\<exists>m. leads firma_spelled s0 m \<and> caps m = (caps s0)(1 \<mapsto> d, 2 \<mapsto> mes, 3 \<mapsto> y)"
proof -
  let ?q = "y @ post"
  let ?n = "'' de '' @ ?q"
  let ?l = "mes @ ?n"
  let ?i = "'' de '' @ ?l"
  let ?h = "d @ ?i"
  from d have dd: "d \<noteq> []" "list_all is_digit d" "1 \<le> length d" "length d \<le> 2"
    by (auto simp add: digits_def)
  from y have yy: "y \<noteq> []" "list_all is_digit y" "length y = 4"
    by (auto simp add: digits_def)
  from month_name_letters [OF mes]
  have mm: "mes \<noteq> []" "list_all is_word mes" "\<not> is_space (hd mes)" by simp_all
  from dd have hd_d: "\<not> is_space (hd d)"
    by (cases d) (simp_all add: digit_not_space)
  from yy have hd_y: "\<not> is_space (hd y)"
    by (cases y) (simp_all add: digit_not_space)

  have "\<exists>m. takes (lits_i ''suscr'') s0 ''suscr'' m \<and> rest m = ''ipto el '' @ ?h"
    by (rule takes_lits_i) (simp_all add: r0)
  then obtain m1 where m1: "takes (lits_i ''suscr'') s0 ''suscr'' m1"
      "rest m1 = ''ipto el '' @ ?h" by blast
  have "\<exists>m. takes (one_of_i [CHR ''i'', CHR ''|'', i_acute]) m1 ''i'' m \<and>
      rest m = ''pto el '' @ ?h"
    by (rule takes_one_of_i) (simp_all add: m1(2) phrase_chars)
  then obtain m2 where m2: "takes (one_of_i [CHR ''i'', CHR ''|'', i_acute]) m1 ''i'' m2"
      "rest m2 = ''pto el '' @ ?h" by blast
  have "\<exists>m. takes (lits_i ''pt'') m2 ''pt'' m \<and> rest m = ''o el '' @ ?h"
    by (rule takes_lits_i) (simp_all add: m2(2))
  then obtain m3 where m3: "takes (lits_i ''pt'') m2 ''pt'' m3"
      "rest m3 = ''o el '' @ ?h" by blast
  have "\<exists>m. takes (opt (lit_i CHR ''o'')) m3 ''o'' m \<and> rest m = '' el '' @ ?h"
    by (rule takes_opt_lit_i) (simp_all add: m3(2))
  then obtain m4 where m4: "takes (opt (lit_i CHR ''o'')) m3 ''o'' m4"
      "rest m4 = '' el '' @ ?h" by blast
  have "\<exists>m. takes (plus S) m4 '' '' m \<and> rest m = ''el '' @ ?h"
    by (rule takes_space) (simp_all add: m4(2) stops_def phrase_chars)
  then obtain m5 where m5: "takes (plus S) m4 '' '' m5" "rest m5 = ''el '' @ ?h" by blast
  have "\<exists>m. takes (lits_i ''el'') m5 ''el'' m \<and> rest m = '' '' @ ?h"
    by (rule takes_lits_i) (simp_all add: m5(2))
  then obtain m6 where m6: "takes (lits_i ''el'') m5 ''el'' m6" "rest m6 = '' '' @ ?h"
    by blast
  have "\<exists>m. takes (plus S) m6 '' '' m \<and> rest m = ?h"
  proof (rule takes_space)
    show "rest m6 = CHR '' '' # ?h" by (simp add: m6(2))
    show "stops is_space ?h" using dd(1) hd_d by (rule stops_hd)
  qed
  then obtain m7 where m7: "takes (plus S) m6 '' '' m7" "rest m7 = ?h" by blast
  have "\<exists>m. takes (rep D 1 2) m7 d m \<and> rest m = ?i"
    unfolding D_def
  proof (rule takes_rep)
    show "rest m7 = d @ ?i" by (simp add: m7(2))
    show "list_all is_digit d" "1 \<le> length d" "length d \<le> 2" by (rule dd(2-4))+
    show "length d = 2 \<or> stops is_digit ?i" by (simp add: stops_def phrase_chars)
  qed
  from group_step [OF this, of 1] obtain m8 where m8: "leads (Grp 1 (rep D 1 2)) m7 m8"
      "rest m8 = ?i" "caps m8 = (caps m7)(1 \<mapsto> d)" by blast
  have "\<exists>m. takes (plus S) m8 '' '' m \<and> rest m = ''de '' @ ?l"
    by (rule takes_space) (simp_all add: m8(2) stops_def phrase_chars)
  then obtain m9 where m9: "takes (plus S) m8 '' '' m9" "rest m9 = ''de '' @ ?l" by blast
  have "\<exists>m. takes (lits_i ''de'') m9 ''de'' m \<and> rest m = '' '' @ ?l"
    by (rule takes_lits_i) (simp_all add: m9(2))
  then obtain m10 where m10: "takes (lits_i ''de'') m9 ''de'' m10" "rest m10 = '' '' @ ?l"
    by blast
  have "\<exists>m. takes (plus S) m10 '' '' m \<and> rest m = ?l"
  proof (rule takes_space)
    show "rest m10 = CHR '' '' # ?l" by (simp add: m10(2))
    show "stops is_space ?l" using mm(1) mm(3) by (rule stops_hd)
  qed
  then obtain m11 where m11: "takes (plus S) m10 '' '' m11" "rest m11 = ?l" by blast
  have "\<exists>m. takes (plus W) m11 mes m \<and> rest m = ?n"
    unfolding W_def
  proof (rule takes_plus_run)
    show "rest m11 = mes @ ?n" by (simp add: m11(2))
    show "mes \<noteq> []" "list_all is_word mes" by (rule mm(1-2))+
    show "stops is_word ?n" by (simp add: stops_def phrase_chars)
  qed
  from group_step [OF this, of 2] obtain m12 where m12: "leads (Grp 2 (plus W)) m11 m12"
      "rest m12 = ?n" "caps m12 = (caps m11)(2 \<mapsto> mes)" by blast
  have "\<exists>m. takes (plus S) m12 '' '' m \<and> rest m = ''de '' @ ?q"
    by (rule takes_space) (simp_all add: m12(2) stops_def phrase_chars)
  then obtain m13 where m13: "takes (plus S) m12 '' '' m13" "rest m13 = ''de '' @ ?q"
    by blast
  have "\<exists>m. takes (lits_i ''de'') m13 ''de'' m \<and> rest m = '' '' @ ?q"
    by (rule takes_lits_i) (simp_all add: m13(2))
  then obtain m14 where m14: "takes (lits_i ''de'') m13 ''de'' m14" "rest m14 = '' '' @ ?q"
    by blast
  have "\<exists>m. takes (plus S) m14 '' '' m \<and> rest m = ?q"
  proof (rule takes_space)
    show "rest m14 = CHR '' '' # ?q" by (simp add: m14(2))
    show "stops is_space ?q" using yy(1) hd_y by (rule stops_hd)
  qed
  then obtain m15 where m15: "takes (plus S) m14 '' '' m15" "rest m15 = ?q" by blast
  have "\<exists>m. takes (rep D 4 4) m15 y m \<and> rest m = post"
    unfolding D_def
  proof (rule takes_rep)
    show "rest m15 = y @ post" by (simp add: m15(2))
    show "list_all is_digit y" by (rule yy(2))
    show "4 \<le> length y" "length y \<le> 4" "length y = 4 \<or> stops is_digit post"
      using yy(3) by simp_all
  qed
  from group_step [OF this, of 3] obtain m16 where m16: "leads (Grp 3 (rep D 4 4)) m15 m16"
      "rest m16 = post" "caps m16 = (caps m15)(3 \<mapsto> y)" by blast

  note t = takes_def
  have l: "leads (lits_i ''suscr'') s0 m1"
      "leads (one_of_i [CHR ''i'', CHR ''|'', i_acute]) m1 m2"
      "leads (lits_i ''pt'') m2 m3" "leads (opt (lit_i CHR ''o'')) m3 m4"
      "leads (plus S) m4 m5" "leads (lits_i ''el'') m5 m6" "leads (plus S) m6 m7"
      "leads (plus S) m8 m9" "leads (lits_i ''de'') m9 m10" "leads (plus S) m10 m11"
      "leads (plus S) m12 m13" "leads (lits_i ''de'') m13 m14" "leads (plus S) m14 m15"
    using m1(1) m2(1) m3(1) m4(1) m5(1) m6(1) m7(1) m9(1) m10(1) m11(1) m13(1) m14(1) m15(1)
    by (simp_all add: t)
  have c7: "caps m7 = caps s0"
    using m1(1) m2(1) m3(1) m4(1) m5(1) m6(1) m7(1) by (simp add: t)
  have c11: "caps m11 = caps m8"
    using m9(1) m10(1) m11(1) by (simp add: t)
  have c15: "caps m15 = caps m12"
    using m13(1) m14(1) m15(1) by (simp add: t)
  have "leads firma_spelled s0 m16"
    unfolding firma_spelled_def
    by (rule leads_seqs_Cons [OF l(1)], rule leads_seqs_Cons [OF l(2)],
        rule leads_seqs_Cons [OF l(3)], rule leads_seqs_Cons [OF l(4)],
        rule leads_seqs_Cons [OF l(5)], rule leads_seqs_Cons [OF l(6)],
        rule leads_seqs_Cons [OF l(7)], rule leads_seqs_Cons [OF m8(1)],
        rule leads_seqs_Cons [OF l(8)], rule leads_seqs_Cons [OF l(9)],
        rule leads_seqs_Cons [OF l(10)], rule leads_seqs_Cons [OF m12(1)],
        rule leads_seqs_Cons [OF l(11)], rule leads_seqs_Cons [OF l(12)],
        rule leads_seqs_Cons [OF l(13)], rule leads_seqs_Cons [OF m16(1)],
        rule leads_seqs_Nil)
  moreover have "caps m16 = (caps s0)(1 \<mapsto> d, 2 \<mapsto> mes, 3 \<mapsto> y)"
    by (simp add: m16(3) c15 m12(3) c11 m8(3) c7)
  ultimately show ?thesis by blast
qed

section \<open>Helper facts\<close>

lemma length_strip_le: "length (strip s) \<le> length s"
proof -
  have "length (strip s) \<le> length (dropWhile is_space s)"
    unfolding strip_def by (metis length_dropWhile_le length_rev)
  also have "\<dots> \<le> length s"
    by (rule length_dropWhile_le)
  finally show ?thesis .
qed

subsection \<open>The guard on short texts\<close>

lemma try_block_short_text:
  "length t < 50 \<Longrightarrow> try_block t url = ([Texto_insuficiente (filename_of url)], None)"
  using length_strip_le [of t] by (simp add: try_block_def)

lemma download_pdf_missing:
  "process_single_pdf downloaded t url = Inl (AttributeError ''download_pdf'')"
  by (simp add: process_single_pdf_def getattr_def attributes_def)

subsection \<open>The two deduplicating loops\<close>

lemma set_first_occurrences: "set (first_occurrences key xs) \<subseteq> set xs"
  by (induction key xs rule: first_occurrences.induct) auto

lemma distinct_first_occurrences: "distinct (map key (first_occurrences key xs))"
proof (induction key xs rule: first_occurrences.induct)
  case (1 key)
  show ?case by simp
next
  case (2 key x xs)
  have "key x \<notin> key ` set (first_occurrences key (filter (\<lambda>y. key y \<noteq> key x) xs))"
    using set_first_occurrences [of key "filter (\<lambda>y. key y \<noteq> key x) xs"] by auto
  with 2 show ?case by simp
qed

text \<open>The state of the institution loop after any number of matches, from any state.\<close>

lemma institution_fold:
  "foldl institution_step (F, acc) mts =
     (F \<union> lower ` set (institution_candidates mts),
      acc @ map new_institution
        (first_occurrences lower
          (filter (\<lambda>n. lower n \<notin> F) (institution_candidates mts))))"
proof (induction mts arbitrary: F acc)
  case Nil
  show ?case by (simp add: institution_candidates_def)
next
  case (Cons m mts)
  let ?n = "strip (group m 1)"
  show ?case
  proof (cases "5 < length ?n \<and> lower ?n \<notin> F")
    case True
    have step: "institution_step (F, acc) m =
        (insert (lower ?n) F, acc @ [new_institution ?n])"
      using True by (simp add: institution_step_def new_institution_def Let_def)
    show ?thesis
      using True by (simp add: step Cons.IH institution_candidates_def conj_ac)
  next
    case False
    have step: "institution_step (F, acc) m = (F, acc)"
      using False by (auto simp add: institution_step_def Let_def)
    show ?thesis
      using False by (auto simp add: step Cons.IH institution_candidates_def)
  qed
qed

lemma institutions_names:
  "map inst_nombre (extract_institutions t) =
     take 5 (first_occurrences lower
       (institution_candidates (all_matches institution_patterns t)))"
  by (simp add: extract_institutions_def institution_fold take_map comp_def
      new_institution_def)

text \<open>The same for the signer loop; every record it appends is made from a match.\<close>

lemma signer_fold:
  "\<exists>sgs. foldl (signer_step t) (F, acc) mts =
       (F \<union> full_name_key ` set (signer_candidates mts), acc @ sgs) \<and>
     map (\<lambda>s. (nombre s, apellido s)) sgs =
       first_occurrences full_name_key
         (filter (\<lambda>na. full_name_key na \<notin> F) (signer_candidates mts)) \<and>
     (\<forall>s \<in> set sgs. \<exists>m. s = new_signer t m)"
proof (induction mts arbitrary: F acc)
  case Nil
  show ?case by (simp add: signer_candidates_def)
next
  case (Cons m mts)
  let ?na = "(group m 1, group m 2)"
  show ?case
  proof (cases "full_name_key ?na \<notin> F \<and> 2 < length (group m 1) \<and> 2 < length (group m 2)")
    case True
    have step: "signer_step t (F, acc) m =
        (insert (full_name_key ?na) F, acc @ [new_signer t m])"
      using True by (simp add: signer_step_def new_signer_def Let_def full_name_key_def)
    from Cons.IH [of "insert (full_name_key ?na) F" "acc @ [new_signer t m]"]
    obtain sgs where sgs:
      "foldl (signer_step t) (insert (full_name_key ?na) F, acc @ [new_signer t m]) mts =
         (insert (full_name_key ?na) F \<union> full_name_key ` set (signer_candidates mts),
          (acc @ [new_signer t m]) @ sgs)"
      "map (\<lambda>s. (nombre s, apellido s)) sgs =
         first_occurrences full_name_key
           (filter (\<lambda>na. full_name_key na \<notin> insert (full_name_key ?na) F)
             (signer_candidates mts))"
      "\<forall>s \<in> set sgs. \<exists>m. s = new_signer t m"
      by blast
    show ?thesis
      apply (rule exI [of _ "new_signer t m # sgs"])
      using True sgs by (auto simp add: step signer_candidates_def new_signer_def conj_ac)
  next
    case False
    have step: "signer_step t (F, acc) m = (F, acc)"
      using False by (auto simp add: signer_step_def Let_def full_name_key_def)
    from Cons.IH [of F acc] obtain sgs where sgs:
      "foldl (signer_step t) (F, acc) mts =
         (F \<union> full_name_key ` set (signer_candidates mts), acc @ sgs)"
      "map (\<lambda>s. (nombre s, apellido s)) sgs =
         first_occurrences full_name_key
           (filter (\<lambda>na. full_name_key na \<notin> F) (signer_candidates mts))"
      "\<forall>s \<in> set sgs. \<exists>m. s = new_signer t m"
      by blast
    show ?thesis
      apply (rule exI [of _ sgs])
      using False sgs by (auto simp add: step signer_candidates_def)
  qed
qed

lemma signers_made: "\<forall>s \<in> set (extract_signers t). \<exists>m. s = new_signer t m"
proof -
  from signer_fold [of t "{}" "[]" "all_matches name_patterns t"]
  obtain sgs where
    "foldl (signer_step t) ({}, []) (all_matches name_patterns t) =
       ({} \<union> full_name_key ` set (signer_candidates (all_matches name_patterns t)),
        [] @ sgs)"
    and "\<forall>s \<in> set sgs. \<exists>m. s = new_signer t m"
    by blast
  then show ?thesis
    by (auto simp add: extract_signers_def dest: in_set_takeD)
qed

lemma signers_names:
  "map (\<lambda>s. (nombre s, apellido s)) (extract_signers t) =
     take 5 (first_occurrences full_name_key
       (signer_candidates (all_matches name_patterns t)))"
proof -
  from signer_fold [of t "{}" "[]" "all_matches name_patterns t"]
  obtain sgs where
    "foldl (signer_step t) ({}, []) (all_matches name_patterns t) =
       ({} \<union> full_name_key ` set (signer_candidates (all_matches name_patterns t)),
        [] @ sgs)"
    and "map (\<lambda>s. (nombre s, apellido s)) sgs =
       first_occurrences full_name_key
         (filter (\<lambda>na. full_name_key na \<notin> {})
           (signer_candidates (all_matches name_patterns t)))"
    by blast
  then show ?thesis
    by (simp add: extract_signers_def take_map [symmetric])
qed

subsection \<open>The title table\<close>

lemma rector_in_vicerrector: "sublist ''rector'' ''vicerrector''"
  by code_simp

lemma vicerrector_in_vicerrectora: "sublist ''vicerrector'' ''vicerrectora''"
  by code_simp

lemma cargo_of_vicerrector:
  assumes "sublist ''vicerrector'' (lower ctx)"
  shows "cargo_of ctx = ''Rector/a''"
proof -
  have "sublist ''rector'' (lower ctx)"
    using rector_in_vicerrector assms by (rule sublist_order.order.trans)
  then show ?thesis
    by (simp add: cargo_of_def cargos_def)
qed

lemma cargo_of_never_vicerrector: "cargo_of ctx \<noteq> ''Vicerrector/a''"
proof (cases "sublist ''rector'' (lower ctx)")
  case True
  then show ?thesis by (simp add: cargo_of_def cargos_def)
next
  case False
  have a: "\<not> sublist ''vicerrector'' (lower ctx)"
    using False rector_in_vicerrector sublist_order.order.trans by blast
  have b: "\<not> sublist ''vicerrectora'' (lower ctx)"
    using a vicerrector_in_vicerrectora sublist_order.order.trans by blast
  show ?thesis
    using False a b by (simp add: cargo_of_def cargos_def)
qed

subsection \<open>The scenario, evaluated\<close>

lemma scenario_tipo_convenio:
  "tipo_convenio (extract_convenio_data scenario_text) = ''Acuerdo''"
  by code_simp

lemma scenario_fecha_firma: "fecha_firma (extract_convenio_data scenario_text) = ''''"
  by code_simp

lemma scenario_resolution:
  "extract_resolution_data scenario_text scenario_url =
     \<lparr>numero = ''0123'', fecha = ''2020-03-15'', tipo = ''DR'', expediente_numero = '''',
      expediente_anio = ''2020'', dependencia_id = '''', link = ''.../R-DR-2020-0123.pdf''\<rparr>"
  by code_simp

lemma scenario_institutions:
  "map name_and_type (extract_institutions scenario_text) =
     [(''Universidad Nacional de Salta y el Ministerio de Educacion'', ''Nacional''),
      (''Ministerio de Educacion'', ''Gubernamental'')]"
  by code_simp

section \<open>The claims\<close>

text \<open>
  C1. The end-to-end scenario. The claim is that the sentence of the scenario gives the
  type Acuerdo Cooperacion, the signing date 2020-03-15, the year 2020, the number 0123
  and, among the institutions, Universidad Nacional de Salta of type Universitaria and
  Ministerio de Educacion of type Gubernamental. On the code the type and the signing
  date differ and the first institution is another entry, so the claim fails:
\<close>

theorem scenario_counterexample:
  "\<not> (tipo_convenio (extract_convenio_data scenario_text) = ''Acuerdo Cooperacion'' \<and>
      fecha_firma (extract_convenio_data scenario_text) = ''2020-03-15'' \<and>
      expediente_anio (extract_resolution_data scenario_text scenario_url) = ''2020'' \<and>
      numero (extract_resolution_data scenario_text scenario_url) = ''0123'' \<and>
      (''Universidad Nacional de Salta'', ''Universitaria'')
        \<in> set (map name_and_type (extract_institutions scenario_text)) \<and>
      (''Ministerio de Educacion'', ''Gubernamental'')
        \<in> set (map name_and_type (extract_institutions scenario_text)))"
  by (simp add: scenario_tipo_convenio)

text \<open>
  C1, as the code has it. The first key of the table that the sentence holds as a whole
  word is acuerdo, so the type is Acuerdo. Neither pattern of the signing date matches
  (the first wants a numeric date after \<^verbatim>\<open>firmado el\<close>, the second the word
  \<^verbatim>\<open>suscripto\<close>), so the signing date is empty; the spelled date is the date of the
  resolution. The year and the number come from the locator. The pattern of the
  university runs to the end of the line, so its entry is the rest of the sentence, of
  type Nacional (the key nacional stands before universidad in the table); the second
  entry is Ministerio de Educacion, of type Gubernamental.
\<close>

theorem scenario_as_extracted:
  "tipo_convenio (extract_convenio_data scenario_text) = ''Acuerdo'' \<and>
   fecha_firma (extract_convenio_data scenario_text) = '''' \<and>
   fecha (extract_resolution_data scenario_text scenario_url) = ''2020-03-15'' \<and>
   expediente_anio (extract_resolution_data scenario_text scenario_url) = ''2020'' \<and>
   numero (extract_resolution_data scenario_text scenario_url) = ''0123'' \<and>
   map name_and_type (extract_institutions scenario_text) =
     [(''Universidad Nacional de Salta y el Ministerio de Educacion'', ''Nacional''),
      (''Ministerio de Educacion'', ''Gubernamental'')]"
  by (simp add: scenario_tipo_convenio scenario_fecha_firma scenario_resolution
      scenario_institutions)

text \<open>
  C2. The claim is that a text holding both marco and marco de cooperacion as whole
  words gets the type Marco de Cooperacion, the compound key standing before the
  generic one in the table. In the table of the code the key marco stands before every
  compound key that begins with it, and the loop stops at the first key found: on such
  a text the type is Marco.
\<close>

theorem marco_shadows_marco_de_cooperacion:
  "re_search (word_pat ''marco'') ''Convenio Marco de Cooperacion entre las partes'' \<noteq> None \<and>
   re_search (word_pat ''marco de cooperacion'')
     ''Convenio Marco de Cooperacion entre las partes'' \<noteq> None \<and>
   tipo_convenio (extract_convenio_data ''Convenio Marco de Cooperacion entre las partes'')
     = ''Marco''"
proof -
  have a: "re_search (word_pat ''marco'')
      ''Convenio Marco de Cooperacion entre las partes'' \<noteq> None"
    by code_simp
  have b: "re_search (word_pat ''marco de cooperacion'')
      ''Convenio Marco de Cooperacion entre las partes'' \<noteq> None"
    by code_simp
  have c: "tipo_convenio
      (extract_convenio_data ''Convenio Marco de Cooperacion entre las partes'') = ''Marco''"
    by code_simp
  from a b c show ?thesis
    by blast
qed

text \<open>
  C3. The claim is that a date field is a valid calendar date in the form YYYY-MM-DD or
  empty. The code copies the digits it captured without checking their range: the day
  99 and the month 13 come out as they went in.
\<close>

theorem date_fields_counterexample:
  "\<not> (fecha (extract_resolution_data ''Salta, 99 de marzo de 2020'' scenario_url) = '''' \<or>
      valid_iso_date (fecha (extract_resolution_data ''Salta, 99 de marzo de 2020'' scenario_url))) \<and>
   \<not> (fecha_firma (extract_convenio_data ''firmado el 45/13/2020'') = '''' \<or>
      valid_iso_date (fecha_firma (extract_convenio_data ''firmado el 45/13/2020'')))"
proof -
  have a: "fecha (extract_resolution_data ''Salta, 99 de marzo de 2020'' scenario_url)
      = ''2020-03-99''"
    by code_simp
  have b: "fecha_firma (extract_convenio_data ''firmado el 45/13/2020'') = ''2020-13-45''"
    by code_simp
  have c: "\<not> valid_iso_date ''2020-03-99''"
    by code_simp
  have d: "\<not> valid_iso_date ''2020-13-45''"
    by code_simp
  from a b c d show ?thesis
    by simp
qed

text \<open>
  C3, as the code has it. A date field is empty or has the shape of a date: a year of
  four digits (three or four in the signing date, where a year of three digits after
  \<^verbatim>\<open>firmado el\<close> is copied as it stands), a hyphen, two digits, a hyphen, two digits.
  Nothing shorter or longer is emitted; the numbers are not checked against the
  calendar.
\<close>

theorem date_fields_shaped:
  "(fecha (extract_resolution_data t url) = '''' \<or>
      date_shaped 4 (fecha (extract_resolution_data t url))) \<and>
   (fecha_firma (extract_convenio_data t) = '''' \<or>
      date_shaped 4 (fecha_firma (extract_convenio_data t)) \<or>
      date_shaped 3 (fecha_firma (extract_convenio_data t)))"
proof
  show "fecha (extract_resolution_data t url) = '''' \<or>
      date_shaped 4 (fecha (extract_resolution_data t url))"
  proof (cases "first_match date_patterns t")
    case None
    then show ?thesis by (simp add: extract_resolution_data_def Let_def)
  next
    case (Some tm)
    from resolution_fecha_shaped [OF Some] Some show ?thesis
      by (simp add: extract_resolution_data_def Let_def)
  qed
  show "fecha_firma (extract_convenio_data t) = '''' \<or>
      date_shaped 4 (fecha_firma (extract_convenio_data t)) \<or>
      date_shaped 3 (fecha_firma (extract_convenio_data t))"
  proof (cases "first_match firma_patterns t")
    case None
    then show ?thesis by (simp add: extract_convenio_data_def)
  next
    case (Some tm)
    from firma_fecha_shaped [OF Some] Some show ?thesis
      by (simp add: extract_convenio_data_def)
  qed
qed

text \<open>
  C4. The claim is that a text with \<^verbatim>\<open>suscrito el 15 de marzo de 2020\<close> and no numeric
  \<^verbatim>\<open>firmado el\<close> date gets the signing date 2020-03-15. The second pattern wants the
  letters p and t after \<^verbatim>\<open>suscri\<close>: it matches suscripto and suscript, not suscrito,
  and the signing date stays empty.
\<close>

theorem suscrito_counterexample:
  "re_search firma_numeric ''suscrito el 15 de marzo de 2020'' = None \<and>
   fecha_firma (extract_convenio_data ''suscrito el 15 de marzo de 2020'') \<noteq> ''2020-03-15''"
proof -
  have a: "re_search firma_numeric ''suscrito el 15 de marzo de 2020'' = None"
    by code_simp
  have b: "fecha_firma (extract_convenio_data ''suscrito el 15 de marzo de 2020'') = ''''"
    by code_simp
  from a b show ?thesis
    by simp
qed

text \<open>
  C4, as the code has it. The text holds the phrase \<^verbatim>\<open>suscripto el D de MES de YYYY\<close>, with
  D of one or two digits, MES the name of a month (in any case) and YYYY of four digits. The
  numeric \<^verbatim>\<open>firmado el\<close> pattern matches nowhere in the text, and no match of the
  \<^verbatim>\<open>suscripto el\<close> pattern begins before the phrase. Then the signing date is
  YYYY-MM-DD, with MM the number of the month and the day padded to two digits.
\<close>

theorem suscripto_date:
  assumes t: "t = pre @ ''suscripto el '' @ d @ '' de '' @ mes @ '' de '' @ y @ post"
    and d: "digits 1 2 d" and mes: "map_of month_map (lower mes) = Some mm"
    and y: "digits 4 4 y"
    and no_numeric: "re_search firma_numeric t = None"
    and first: "list_all (\<lambda>i. \<not> begins_at firma_spelled t i) [0..<length pre]"
  shows "fecha_firma (extract_convenio_data t) = y @ ''-'' @ mm @ ''-'' @ zfill 2 d"
proof -
  let ?s0 = "state_at t (length pre)"
  have r0: "rest ?s0 = ''suscripto el '' @ d @ '' de '' @ mes @ '' de '' @ y @ post"
    by (simp add: state_at_def t)
  from firma_spelled_walk [OF r0 d mes y] obtain m where
    m: "leads firma_spelled ?s0 m" "caps m = (caps ?s0)(1 \<mapsto> d, 2 \<mapsto> mes, 3 \<mapsto> y)"
    by blast
  have k: "length pre \<le> length t" by (simp add: t)
  from first have "\<forall>j < length pre. \<not> begins_at firma_spelled t j"
    by (simp add: list_all_iff)
  from re_search_first [OF k m(1) this]
  have s: "re_search firma_spelled t = Some (to_match (length pre) m)" .
  have g: "group (to_match (length pre) m) 1 = d" "group (to_match (length pre) m) 2 = mes"
      "group (to_match (length pre) m) 3 = y"
    by (simp_all add: group_def to_match_def m(2))
  from g(1) have g1: "group (to_match (length pre) m) (Suc 0) = d" by simp
  from month_name_letters [OF mes] have "digits 2 2 mm" by simp
  then have z: "zfill 2 mm = mm" by (rule digits_same)
  have "first_match firma_patterns t = Some (True, to_match (length pre) m)"
    by (simp add: firma_patterns_def no_numeric s)
  then show ?thesis
    by (simp add: extract_convenio_data_def firma_fecha_def g g1 month_of_def mes z)
qed

theorem suscripto_date_witness:
  "re_search firma_numeric ''Convenio suscripto el 5 de Marzo de 2020 entre las partes'' = None \<and>
   list_all (\<lambda>i. \<not> begins_at firma_spelled
     ''Convenio suscripto el 5 de Marzo de 2020 entre las partes'' i) [0..<9] \<and>
   fecha_firma (extract_convenio_data
     ''Convenio suscripto el 5 de Marzo de 2020 entre las partes'') = ''2020-03-05''"
proof -
  let ?t = "''Convenio suscripto el 5 de Marzo de 2020 entre las partes''"
  have t: "?t = ''Convenio '' @ ''suscripto el '' @ ''5'' @ '' de '' @ ''Marzo'' @ '' de '' @
      ''2020'' @ '' entre las partes''"
    by simp
  have d: "digits 1 2 ''5''" by code_simp
  have mes: "map_of month_map (lower ''Marzo'') = Some ''03''" by code_simp
  have y: "digits 4 4 ''2020''" by code_simp
  have n: "re_search firma_numeric ?t = None" by code_simp
  have f: "list_all (\<lambda>i. \<not> begins_at firma_spelled ?t i) [0..<9]"
    by code_simp
  have l: "length ''Convenio '' = 9" by simp
  have z: "zfill 2 ''5'' = ''05''" by code_simp
  have f': "list_all (\<lambda>i. \<not> begins_at firma_spelled ?t i)
      [0..<length ''Convenio '']"
    unfolding l by (rule f)
  from suscripto_date [OF t d mes y n f'] z
  have r: "fecha_firma (extract_convenio_data ?t) = ''2020-03-05''"
    by simp
  show ?thesis
    by (rule conjI [OF n conjI [OF f r]])
qed

text \<open>
  C5. Two-digit year pivot: the token 49 becomes 2049, 51 becomes 1951 and the boundary
  token 50 becomes 2050, at both places where a pattern captures a year of two digits:
  the year of the case file (\<^verbatim>\<open>expediente\<close>) and the year of the numeric
  \<^verbatim>\<open>firmado el\<close> date. The rule is: a value above 50 gets the prefix 19, any other
  value the prefix 20.
\<close>

theorem two_digit_year_pivot:
  "expand_year ''49'' = ''2049'' \<and> expand_year ''51'' = ''1951'' \<and>
   expand_year ''50'' = ''2050'' \<and>
   expand_year [a, b] = (if 50 < py_int [a, b] then ''19'' @ [a, b] else ''20'' @ [a, b]) \<and>
   py_int [a, b] = 10 * (code a - 48) + (code b - 48) \<and>
   expediente_anio (extract_resolution_data ''Expediente N 1234/49'' ''R-DR-2020-0123.pdf'')
     = ''2049'' \<and>
   expediente_anio (extract_resolution_data ''Expediente N 1234/51'' ''R-DR-2020-0123.pdf'')
     = ''1951'' \<and>
   expediente_anio (extract_resolution_data ''Expediente N 1234/50'' ''R-DR-2020-0123.pdf'')
     = ''2050'' \<and>
   fecha_firma (extract_convenio_data ''firmado el 1/2/49'') = ''2049-02-01'' \<and>
   fecha_firma (extract_convenio_data ''firmado el 1/2/51'') = ''1951-02-01'' \<and>
   fecha_firma (extract_convenio_data ''firmado el 1/2/50'') = ''2050-02-01''"
proof -
  have tokens: "expand_year ''49'' = ''2049'' \<and> expand_year ''51'' = ''1951'' \<and>
      expand_year ''50'' = ''2050''"
    by code_simp
  have rule: "expand_year [a, b] =
      (if 50 < py_int [a, b] then ''19'' @ [a, b] else ''20'' @ [a, b])"
    by (simp add: expand_year_def)
  have val: "py_int [a, b] = 10 * (code a - 48) + (code b - 48)"
    by (simp add: py_int_def)
  have e49: "expediente_anio
      (extract_resolution_data ''Expediente N 1234/49'' ''R-DR-2020-0123.pdf'') = ''2049''"
    by code_simp
  have e51: "expediente_anio
      (extract_resolution_data ''Expediente N 1234/51'' ''R-DR-2020-0123.pdf'') = ''1951''"
    by code_simp
  have e50: "expediente_anio
      (extract_resolution_data ''Expediente N 1234/50'' ''R-DR-2020-0123.pdf'') = ''2050''"
    by code_simp
  have f49: "fecha_firma (extract_convenio_data ''firmado el 1/2/49'') = ''2049-02-01''"
    by code_simp
  have f51: "fecha_firma (extract_convenio_data ''firmado el 1/2/51'') = ''1951-02-01''"
    by code_simp
  have f50: "fecha_firma (extract_convenio_data ''firmado el 1/2/50'') = ''2050-02-01''"
    by code_simp
  from tokens rule val e49 e51 e50 f49 f51 f50 show ?thesis
    by blast
qed

text \<open>
  C6. A text of fewer than 50 characters is to give no row and the warning that the text of
  the file is insufficient. The \<^verbatim>\<open>try\<close> block of \<^verbatim>\<open>process_single_pdf\<close> does so
  for the text \<^verbatim>\<open>Convenio marco entre las partes\<close>, but the method never gets there:
  line 481 looks up \<^verbatim>\<open>download_pdf\<close>, a name the class does not define (its method is
  \<^verbatim>\<open>download_file\<close>), and the method raises \<^verbatim>\<open>AttributeError\<close>, whatever the
  download would have answered.
\<close>

theorem short_text_attribute_error:
  "process_single_pdf True ''Convenio marco entre las partes''
       ''http://bo.unsa.edu.ar/R-DR-2020-0123.pdf''
     = Inl (AttributeError ''download_pdf'') \<and>
   process_single_pdf False ''Convenio marco entre las partes''
       ''http://bo.unsa.edu.ar/R-DR-2020-0123.pdf''
     = Inl (AttributeError ''download_pdf'') \<and>
   try_block ''Convenio marco entre las partes'' ''http://bo.unsa.edu.ar/R-DR-2020-0123.pdf''
     = ([Texto_insuficiente ''R-DR-2020-0123.pdf''], None) \<and>
   getattr ''download_file'' = Inr ''download_file''"
proof -
  have f: "filename_of ''http://bo.unsa.edu.ar/R-DR-2020-0123.pdf'' = ''R-DR-2020-0123.pdf''"
    by code_simp
  have l: "length ''Convenio marco entre las partes'' < (50::nat)"
    by simp
  have g: "getattr ''download_file'' = Inr ''download_file''"
    by (simp add: getattr_def attributes_def)
  from try_block_short_text [OF l, of "''http://bo.unsa.edu.ar/R-DR-2020-0123.pdf''"] f
  have b: "try_block ''Convenio marco entre las partes''
      ''http://bo.unsa.edu.ar/R-DR-2020-0123.pdf''
      = ([Texto_insuficiente ''R-DR-2020-0123.pdf''], None)"
    by simp
  show ?thesis
    by (rule conjI [OF download_pdf_missing conjI [OF download_pdf_missing conjI [OF b g]]])
qed

text \<open>
  C7. The institutions and the signers returned are at most five each, no two of them
  have the same key (the lower-cased name of an institution; the lower-cased first name
  and surname of a signer, joined by a space), and they stand in the order of first
  discovery: the names returned are the first five of the first occurrences, by key,
  among the candidates in the order of the scan.
\<close>

theorem lists_bounded_deduplicated:
  "length (extract_institutions t) \<le> 5 \<and>
   distinct (map (\<lambda>i. lower (inst_nombre i)) (extract_institutions t)) \<and>
   map inst_nombre (extract_institutions t) =
     take 5 (first_occurrences lower
       (institution_candidates (all_matches institution_patterns t))) \<and>
   length (extract_signers t) \<le> 5 \<and>
   distinct (map (\<lambda>s. lower (nombre s @ '' '' @ apellido s)) (extract_signers t)) \<and>
   map (\<lambda>s. (nombre s, apellido s)) (extract_signers t) =
     take 5 (first_occurrences full_name_key
       (signer_candidates (all_matches name_patterns t)))"
proof -
  have i1: "length (extract_institutions t) \<le> 5"
    by (simp add: extract_institutions_def)
  have "distinct (map lower (map inst_nombre (extract_institutions t)))"
    unfolding institutions_names take_map [symmetric]
    by (rule distinct_take) (rule distinct_first_occurrences)
  then have i2: "distinct (map (\<lambda>i. lower (inst_nombre i)) (extract_institutions t))"
    by (simp add: comp_def)
  have s1: "length (extract_signers t) \<le> 5"
    by (simp add: extract_signers_def)
  have "distinct (map full_name_key
      (map (\<lambda>s. (nombre s, apellido s)) (extract_signers t)))"
    unfolding signers_names take_map [symmetric]
    by (rule distinct_take) (rule distinct_first_occurrences)
  then have s2:
    "distinct (map (\<lambda>s. lower (nombre s @ '' '' @ apellido s)) (extract_signers t))"
    by (simp add: comp_def full_name_key_def)
  from i1 i2 institutions_names s1 s2 signers_names show ?thesis
    by blast
qed

theorem lists_bounded_deduplicated_witness:
  "map inst_nombre (extract_institutions
      (''Universidad A1, Universidad B2, universidad a1, Universidad C3, Universidad D4, '' @
       ''UNIVERSIDAD B2, Universidad E5, Universidad F6, Instituto G7'')) =
     [''Universidad A1'', ''Universidad B2'', ''Universidad C3'', ''Universidad D4'',
      ''Universidad E5''] \<and>
   distinct (map (\<lambda>i. lower (inst_nombre i)) (extract_institutions
      (''Universidad A1, Universidad B2, universidad a1, Universidad C3, Universidad D4, '' @
       ''UNIVERSIDAD B2, Universidad E5, Universidad F6, Instituto G7''))) \<and>
   map (\<lambda>s. (nombre s, apellido s)) (extract_signers
      ''Juan Perez, vicerrector, Maria Lopez, Juan Perez y la Lic. Ana Ruiz'') =
     [(''Juan'', ''Perez''), (''Maria'', ''Lopez''), (''Ana'', ''Ruiz'')] \<and>
   distinct (map (\<lambda>s. lower (nombre s @ '' '' @ apellido s)) (extract_signers
      ''Juan Perez, vicerrector, Maria Lopez, Juan Perez y la Lic. Ana Ruiz''))"
proof -
  let ?ti = "''Universidad A1, Universidad B2, universidad a1, Universidad C3, Universidad D4, '' @
       ''UNIVERSIDAD B2, Universidad E5, Universidad F6, Instituto G7''"
  let ?ts = "''Juan Perez, vicerrector, Maria Lopez, Juan Perez y la Lic. Ana Ruiz''"
  have ci: "first_occurrences lower
      (institution_candidates (all_matches institution_patterns ?ti)) =
      [''Universidad A1'', ''Universidad B2'', ''Universidad C3'', ''Universidad D4'',
       ''Universidad E5'', ''Universidad F6'', ''Instituto G7'']"
    by code_simp
  have cs: "first_occurrences full_name_key
      (signer_candidates (all_matches name_patterns ?ts)) =
      [(''Juan'', ''Perez''), (''Maria'', ''Lopez''), (''Ana'', ''Ruiz'')]"
    by code_simp
  show ?thesis
    using lists_bounded_deduplicated [of ?ti] lists_bounded_deduplicated [of ?ts] ci cs
    by simp
qed

text \<open>
  C8. The title of the agreement has at most 255 characters and its purpose at most
  500, whatever the length of the span the pattern captured.
\<close>

theorem titulo_objeto_truncated:
  "length (titulo (extract_convenio_data t)) \<le> 255 \<and>
   length (objeto (extract_convenio_data t)) \<le> 500"
  by (simp add: extract_convenio_data_def split: option.split prod.split)

text \<open>
  C9. When the context window of a signer holds the word vicerrector (or vicerrectora,
  which contains it), the title found is that of the rector: the key rector comes
  first in the table and is a substring of vicerrector. So the record made for such a
  match says Rector/a, and no signer ever gets the title Vicerrector/a.
\<close>

theorem vicerrector_is_rector:
  assumes "sublist ''vicerrector'' (lower (context_of t m))"
  shows "cargo_of (context_of t m) = ''Rector/a'' \<and>
         cargo (new_signer t m) = ''Rector/a'' \<and>
         (\<forall>sg \<in> set (extract_signers t'). cargo sg \<noteq> ''Vicerrector/a'')"
proof -
  have "cargo sg \<noteq> ''Vicerrector/a''" if "sg \<in> set (extract_signers t')" for sg
  proof -
    from that signers_made [of t'] obtain m' where "sg = new_signer t' m'"
      by blast
    then show ?thesis
      by (simp add: new_signer_def cargo_of_never_vicerrector)
  qed
  with cargo_of_vicerrector [OF assms] show ?thesis
    by (simp add: new_signer_def)
qed

theorem vicerrector_is_rector_witness:
  "sublist ''vicerrector''
     (lower (context_of ''Juan Perez, vicerrector de la Universidad''
        \<lparr>m_start = 0, m_end = 10, m_groups = Map.empty\<rparr>)) \<and>
   cargo_of (context_of ''Juan Perez, vicerrector de la Universidad''
        \<lparr>m_start = 0, m_end = 10, m_groups = Map.empty\<rparr>) = ''Rector/a'' \<and>
   map (\<lambda>s. (nombre s, apellido s, cargo s))
     (extract_signers ''Juan Perez, vicerrector de la Universidad'') =
     [(''Juan'', ''Perez'', ''Rector/a'')]"
proof -
  let ?t = "''Juan Perez, vicerrector de la Universidad''"
  let ?m = "\<lparr>m_start = 0, m_end = 10, m_groups = Map.empty\<rparr>"
  have h: "sublist ''vicerrector'' (lower (context_of ?t ?m))"
    by code_simp
  have e: "map (\<lambda>s. (nombre s, apellido s, cargo s)) (extract_signers ?t) =
      [(''Juan'', ''Perez'', ''Rector/a'')]"
    by code_simp
  show ?thesis
    using vicerrector_is_rector [OF h] h e by simp
qed

text \<open>
  C10. When every occurrence of the word convenio is followed, up to the end of the
  text, by neither a line break nor a period, the title is empty: the title pattern
  ends with a line break or a period, so a title that runs to the end of the text is
  not captured.
\<close>

theorem title_needs_terminator:
  assumes "convenio_runs_to_end t"
  shows "titulo (extract_convenio_data t) = ''''"
proof -
  have "re_search title_pat t = None"
  proof (cases "re_search title_pat t")
    case None
    then show ?thesis .
  next
    case (Some mt)
    from re_search_Some [OF Some] obtain pre cs pv st m where
      t: "t = pre @ cs" and
      m: "m \<in> set (matches title_pat \<lparr>pos = st, prev = pv, rest = cs, caps = Map.empty\<rparr>)"
      by blast
    from title_pat_needs_terminator [OF m] obtain w post where
      "lower w = ''convenio''" "has_terminator post" "cs = w @ post"
      by auto
    with convenio_runs_to_end_split [of pre w post] assms t show ?thesis
      by simp
  qed
  then show ?thesis
    by (simp add: extract_convenio_data_def)
qed

theorem title_needs_terminator_witness:
  "convenio_runs_to_end ''Resolucion 123. Convenio Marco de Cooperacion entre las partes'' \<and>
   titulo (extract_convenio_data
     ''Resolucion 123. Convenio Marco de Cooperacion entre las partes'') = '''' \<and>
   titulo (extract_convenio_data
     ''Resolucion 123. Convenio Marco de Cooperacion entre las partes.'')
     = ''Marco de Cooperacion entre las partes''"
proof -
  have h: "convenio_runs_to_end
      ''Resolucion 123. Convenio Marco de Cooperacion entre las partes''"
    by code_simp
  have e: "titulo (extract_convenio_data
      ''Resolucion 123. Convenio Marco de Cooperacion entre las partes.'')
      = ''Marco de Cooperacion entre las partes''"
    by code_simp
  show ?thesis
    using title_needs_terminator [OF h] h e by simp
qed

end
